theory Spec2Isabelle
  imports Complex_Main
begin

section \<open>Progress aggregation (index.js, the closure of \<open>cpy\<close>)\<close>

text \<open>
  A JavaScript number as far as this program produces one by division: a finite value,
  \<open>Infinity\<close> (\<open>n / 0\<close> for \<open>n > 0\<close>) or \<open>NaN\<close> (\<open>0 / 0\<close>). Finite values are
  kept as exact rationals; the only finite values the properties below look at are
  \<open>0\<close> and \<open>1\<close>, which IEEE doubles represent exactly.
\<close>

datatype jsnumber = Num rat | PosInfinity | NaN

definition js_div :: "nat \<Rightarrow> nat \<Rightarrow> jsnumber" where
  "js_div a b =
     (if b = 0 then (if a = 0 then NaN else PosInfinity)
      else Num (of_nat a / of_nat b))"

text \<open>
  \<open>CopyStatus\<close> (index.js, lines 31-35): the last \<open>{written, percent}\<close> seen for a file.
  \<open>written\<close> is a byte count, \<open>percent\<close> a finite ratio (cp-file computes it as
  \<open>written === size ? 1 : written / size\<close>).
  \<open>progress_data\<close> is cp-file's progress event: a status together with the source path.
\<close>

record copy_status =
  written :: int
  percent :: rat

record progress_data = copy_status +
  src :: string

text \<open>
  The closure variables \<open>completedFiles\<close>, \<open>completedSize\<close> and \<open>copyStatus\<close>
  (lines 148, 165, 166), and the snapshot emitted on \<open>'progress'\<close>, which carries the
  two counters together with \<open>totalFiles\<close> and the overall \<open>percent\<close> (here
  \<open>percentDone\<close>, since \<open>percent\<close> already names the per-file field).
\<close>

record counters =
  completedFiles :: nat
  completedSize :: int

record aggregator = counters +
  copyStatus :: "string \<rightharpoonup> copy_status"

record progress = counters +
  totalFiles :: nat
  percentDone :: jsnumber

definition initialAggregator :: aggregator where
  "initialAggregator = \<lparr>completedFiles = 0, completedSize = 0, copyStatus = Map.empty\<rparr>"

text \<open>\<open>copyStatus.get(event.src) || {written: 0, percent: 0}\<close> (lines 242-245).\<close>

definition defaultStatus :: copy_status where
  "defaultStatus = \<lparr>written = 0, percent = 0\<rparr>"

definition statusOf :: "aggregator \<Rightarrow> string \<Rightarrow> copy_status" where
  "statusOf s p = (case copyStatus s p of Some st \<Rightarrow> st | None \<Rightarrow> defaultStatus)"

text \<open>
  \<open>completedSize\<close> is a JavaScript number, an IEEE double, and so are the byte counts
  added to it: integers, which a double holds exactly up to \<open>2^53 = 9007199254740992\<close>.
  The result of a subtraction or an addition is the exact result rounded to the nearest
  double, ties going to the even mantissa. \<open>toDouble\<close> is that rounding on integers:
  \<open>halvings m\<close> is the number of low bits a magnitude \<open>m\<close> has beyond the 53 bits of
  a mantissa. (A double overflows to \<open>Infinity\<close> above \<open>2^1023\<close>; no sum of byte
  counts comes near, and the overflow is left out.)
\<close>

function halvings :: "int \<Rightarrow> nat" where
  "halvings m = (if m < 9007199254740992 then 0 else Suc (halvings (m div 2)))"
  by pat_completeness auto
termination
  by (relation "measure nat") auto

declare halvings.simps [simp del]

definition toDouble :: "int \<Rightarrow> int" where
  "toDouble x =
     (let m = \<bar>x\<bar>; e = halvings m; q = m div 2 ^ e; r = m mod 2 ^ e
      in if e = 0 then x
         else sgn x * ((if 2 ^ e < 2 * r \<or> (2 * r = 2 ^ e \<and> odd q) then q + 1 else q) * 2 ^ e))"

text \<open>
  \<open>fileProgressHandler\<close> (lines 241-270). \<open>n\<close> is \<open>entries.length\<close>. The result is
  the updated closure state and the snapshot emitted, if any. Lines 251-252 are two
  operations on doubles, \<open>completedSize -= fileStatus.written\<close> and then
  \<open>completedSize += event.written\<close>, each rounding its result.
\<close>

definition fileProgressHandler ::
  "nat \<Rightarrow> progress_data \<Rightarrow> aggregator \<Rightarrow> aggregator \<times> progress option" where
  "fileProgressHandler n event s =
     (let fileStatus = statusOf s (src event) in
      if written fileStatus \<noteq> written event \<or> percent fileStatus \<noteq> percent event then
        let size' = toDouble (toDouble (completedSize s - written fileStatus) + written event);
            files' = (if percent event = 1 \<and> percent fileStatus \<noteq> 1
                      then completedFiles s + 1 else completedFiles s);
            status' = (copyStatus s)(src event \<mapsto>
                         \<lparr>written = written event, percent = percent event\<rparr>)
        in (\<lparr>completedFiles = files', completedSize = size', copyStatus = status'\<rparr>,
            Some \<lparr>completedFiles = files', completedSize = size',
                  totalFiles = n, percentDone = js_div files' n\<rparr>)
      else (s, None))"

text \<open>
  The handler runs to completion on every event (one JavaScript thread), so the raw
  ticks of all concurrent copies reach it as one sequence. \<open>ingest\<close> feeds that
  sequence in order and collects the snapshots emitted.
\<close>

fun ingest :: "nat \<Rightarrow> progress_data list \<Rightarrow> aggregator \<Rightarrow> aggregator \<times> progress list" where
  "ingest n [] s = (s, [])"
| "ingest n (e # es) s =
     (case fileProgressHandler n e s of
        (s', out) \<Rightarrow>
          (case ingest n es s' of
             (s'', outs) \<Rightarrow> (s'', (case out of None \<Rightarrow> [] | Some p \<Rightarrow> [p]) @ outs)))"

text \<open>The terminal snapshot of an operation without entries (lines 229-236).\<close>

definition emptySnapshot :: progress where
  "emptySnapshot = \<lparr>completedFiles = 0, completedSize = 0, totalFiles = 0, percentDone = Num 1\<rparr>"

text \<open>
  Everything emitted on \<open>'progress'\<close> during one operation with \<open>n\<close> entries whose
  copies deliver the raw ticks \<open>es\<close>.
\<close>

definition progressEvents :: "nat \<Rightarrow> progress_data list \<Rightarrow> progress list" where
  "progressEvents n es =
     (if n = 0 then [emptySnapshot] else []) @ snd (ingest n es initialAggregator)"

text \<open>
  What a sequence of raw ticks says about each file: \<open>lastStatus prev es p\<close> is the
  status of the last tick in \<open>es\<close> for path \<open>p\<close> (\<open>prev p\<close> when there is none).
  \<open>writtenNeverDrops prev es\<close> holds when every tick reports at least as many written
  bytes as the previous tick for the same file; \<open>staysFinished prev es\<close> holds when no
  file that has reported \<open>percent = 1\<close> reports another percentage afterwards.
\<close>

definition statusOfEvent :: "progress_data \<Rightarrow> copy_status" where
  "statusOfEvent e = \<lparr>written = written e, percent = percent e\<rparr>"

fun lastStatus :: "(string \<Rightarrow> copy_status) \<Rightarrow> progress_data list \<Rightarrow> string \<Rightarrow> copy_status" where
  "lastStatus prev [] = prev"
| "lastStatus prev (e # es) = lastStatus (prev(src e := statusOfEvent e)) es"

fun writtenNeverDrops :: "(string \<Rightarrow> copy_status) \<Rightarrow> progress_data list \<Rightarrow> bool" where
  "writtenNeverDrops prev [] = True"
| "writtenNeverDrops prev (e # es) =
     (written (prev (src e)) \<le> written e \<and>
      writtenNeverDrops (prev(src e := statusOfEvent e)) es)"

fun staysFinished :: "(string \<Rightarrow> copy_status) \<Rightarrow> progress_data list \<Rightarrow> bool" where
  "staysFinished prev [] = True"
| "staysFinished prev (e # es) =
     ((percent (prev (src e)) = 1 \<longrightarrow> percent e = 1) \<and>
      staysFinished (prev(src e := statusOfEvent e)) es)"

text \<open>
  \<open>sizesExact n es s\<close> holds when, feeding \<open>es\<close> from the state \<open>s\<close>, every
  subtraction and addition of lines 251-252 has a result below \<open>2^53\<close> in magnitude, so
  that none of them rounds.
\<close>

fun sizesExact :: "nat \<Rightarrow> progress_data list \<Rightarrow> aggregator \<Rightarrow> bool" where
  "sizesExact n [] s = True"
| "sizesExact n (e # es) s =
     (\<bar>completedSize s - written (statusOf s (src e))\<bar> < 2 ^ 53 \<and>
      \<bar>completedSize s - written (statusOf s (src e)) + written e\<bar> < 2 ^ 53 \<and>
      sizesExact n es (fst (fileProgressHandler n e s)))"

text \<open>
  A progress event written out, and the paths whose recorded status is \<open>percent = 1\<close>.
\<close>

definition tick :: "string \<Rightarrow> int \<Rightarrow> rat \<Rightarrow> progress_data" where
  "tick p w r = \<lparr>written = w, percent = r, src = p\<rparr>"

definition doneSet :: "aggregator \<Rightarrow> string set" where
  "doneSet s = {p. percent (statusOf s p) = 1}"

section \<open>Node's \<open>path\<close> module, POSIX flavour\<close>

text \<open>
  index.js takes \<open>basename\<close>, \<open>extname\<close>, \<open>join\<close>, \<open>relative\<close>, \<open>sep\<close>,
  \<open>isAbsolute\<close> and \<open>dirname\<close> from Node's \<open>path\<close> module. They are modelled here
  as Node's \<open>path.posix\<close> computes them, on strings as character lists.
\<close>

definition sep :: string where
  "sep = ''/''"

text \<open>\<open>String.prototype.split\<close> for a one-character separator, and \<open>Array.prototype.join\<close>.\<close>

fun split_on :: "char \<Rightarrow> string \<Rightarrow> string list" where
  "split_on c [] = [[]]"
| "split_on c (x # xs) =
     (if x = c then [] # split_on c xs
      else (case split_on c xs of [] \<Rightarrow> [[x]] | s # ss \<Rightarrow> (x # s) # ss))"

fun join_with :: "string \<Rightarrow> string list \<Rightarrow> string" where
  "join_with s [] = []"
| "join_with s [x] = x"
| "join_with s (x # y # ys) = x @ s @ join_with s (y # ys)"

text \<open>
  \<open>normalizeString\<close>: the path is read segment by segment. Empty segments and \<open>.\<close> are
  dropped; \<open>..\<close> removes the last segment kept so far unless there is none or it is
  itself \<open>..\<close>, in which case \<open>..\<close> is kept when \<open>allowAboveRoot\<close> holds and dropped
  otherwise; every other segment is kept. The segments kept are joined by \<open>/\<close>.
\<close>

definition normalizeStep :: "bool \<Rightarrow> string list \<Rightarrow> string \<Rightarrow> string list" where
  "normalizeStep allowAboveRoot res seg =
     (if seg = [] \<or> seg = ''.'' then res
      else if seg = ''..'' then
        (if res \<noteq> [] \<and> last res \<noteq> ''..'' then butlast res
         else if allowAboveRoot then res @ [''..''] else res)
      else res @ [seg])"

definition normalizeSegments :: "bool \<Rightarrow> string \<Rightarrow> string list" where
  "normalizeSegments allowAboveRoot path =
     foldl (normalizeStep allowAboveRoot) [] (split_on CHR ''/'' path)"

definition normalizeString :: "string \<Rightarrow> bool \<Rightarrow> string" where
  "normalizeString path allowAboveRoot = join_with ''/'' (normalizeSegments allowAboveRoot path)"

definition isAbsolute :: "string \<Rightarrow> bool" where
  "isAbsolute path = (path \<noteq> [] \<and> hd path = CHR ''/'')"

definition normalize :: "string \<Rightarrow> string" where
  "normalize path =
     (if path = [] then ''.''
      else
        let isAbs = (hd path = CHR ''/'');
            trailingSeparator = (last path = CHR ''/'');
            p = normalizeString path (\<not> isAbs)
        in if p = [] then (if isAbs then ''/'' else if trailingSeparator then ''./'' else ''.'')
           else (if isAbs then ''/'' else []) @ p @ (if trailingSeparator then ''/'' else []))"

text \<open>\<open>join(...args)\<close>: the non-empty arguments, joined by \<open>/\<close> and normalized.\<close>

definition join :: "string list \<Rightarrow> string" where
  "join args =
     (let joined = filter (\<lambda>a. a \<noteq> []) args
      in if joined = [] then ''.'' else normalize (join_with ''/'' joined))"

text \<open>
  \<open>resolve(path)\<close> with one argument; \<open>pcwd\<close> is \<open>process.cwd()\<close>, which Node consults
  when the path is not absolute.
\<close>

definition resolve :: "string \<Rightarrow> string \<Rightarrow> string" where
  "resolve pcwd path =
     (let p1 = (if path = [] then [] else path @ ''/'');
          resolvedAbsolute = (if isAbsolute path then True else isAbsolute pcwd);
          resolvedPath = (if isAbsolute path \<or> pcwd = [] then p1 else pcwd @ ''/'' @ p1);
          n = normalizeString resolvedPath (\<not> resolvedAbsolute)
      in if resolvedAbsolute then ''/'' @ n else if n \<noteq> [] then n else ''.'')"

text \<open>
  \<open>relative(from, to)\<close>: empty when the two are the same string or resolve to the same
  path; otherwise the result climbs with one \<open>..\<close> for every segment of the resolved
  \<open>from\<close> below the longest common leading run of segments and then descends along the
  remaining segments of the resolved \<open>to\<close>. (Node compares the resolved paths
  character by character; on resolved absolute paths, which is what \<open>resolve\<close> returns
  under an absolute \<open>process.cwd()\<close>, that is this comparison of segments.)
\<close>

fun commonPrefix :: "string list \<Rightarrow> string list \<Rightarrow> nat" where
  "commonPrefix (x # xs) (y # ys) = (if x = y then Suc (commonPrefix xs ys) else 0)"
| "commonPrefix _ _ = 0"

definition pathSegments :: "string \<Rightarrow> string list" where
  "pathSegments p = filter (\<lambda>s. s \<noteq> []) (split_on CHR ''/'' p)"

definition relative :: "string \<Rightarrow> string \<Rightarrow> string \<Rightarrow> string" where
  "relative pcwd from to =
     (if from = to then []
      else
        let f = resolve pcwd from; t = resolve pcwd to
        in if f = t then []
           else
             let fs = pathSegments f; ts = pathSegments t; k = commonPrefix fs ts
             in join_with ''/'' (replicate (length fs - k) ''..'' @ drop k ts))"

text \<open>
  \<open>dirname\<close>: trailing slashes (after the first character) are skipped, then the last
  component; what stands before the slash in front of that component is the directory.
  Without such a slash the result is \<open>/\<close> for a rooted path and \<open>.\<close> otherwise; a
  rooted path whose only such slash is at index 1 gives \<open>//\<close>.
\<close>

definition dirname :: "string \<Rightarrow> string" where
  "dirname path =
     (if path = [] then ''.''
      else
        let hasRoot = (hd path = CHR ''/'');
            r = dropWhile (\<lambda>c. c = CHR ''/'') (rev (tl path));
            r' = dropWhile (\<lambda>c. c \<noteq> CHR ''/'') r
        in if r' = [] then (if hasRoot then ''/'' else ''.'')
           else if hasRoot \<and> length r' = 1 then ''//''
           else hd path # rev (tl r'))"

text \<open>
  \<open>basename(path)\<close>: the last component, trailing slashes ignored.
  \<open>basename(path, ext)\<close> also cuts \<open>ext\<close> off the end of that component. index.js
  passes \<open>extname(path)\<close> only, which is empty or a proper ending of the component;
  for such arguments the definition is Node's result.
\<close>

definition basename :: "string \<Rightarrow> string" where
  "basename path = rev (takeWhile (\<lambda>c. c \<noteq> CHR ''/'') (dropWhile (\<lambda>c. c = CHR ''/'') (rev path)))"

definition basenameExt :: "string \<Rightarrow> string \<Rightarrow> string" where
  "basenameExt path ext =
     (let b = basename path
      in if ext \<noteq> [] \<and> ext = path then []
         else if ext \<noteq> [] \<and> length ext < length b \<and> drop (length b - length ext) b = ext
              then take (length b - length ext) b
         else b)"

text \<open>
  \<open>extname\<close>: from the last \<open>.\<close> of the last component to its end; empty when the
  component has no dot, starts with its only dot, or is \<open>..\<close>.
\<close>

definition extname :: "string \<Rightarrow> string" where
  "extname path =
     (let b = basename path;
          after = takeWhile (\<lambda>c. c \<noteq> CHR ''.'') (rev b);
          startDot = length b - length after - 1
      in if length after = length b \<or> startDot = 0 \<or> b = ''..'' then []
         else drop startDot b)"

section \<open>Patterns, entries and options (index.js, lines 21-84)\<close>

text \<open>
  \<open>GlobPattern\<close> is required from \<open>./glob-pattern\<close>. index.js reads four things of an
  instance: the property \<open>originalPath\<close>, the getter \<open>normalizedPath\<close>, and the results
  of the methods \<open>hasMagic()\<close> and \<open>getMatches()\<close>. An instance is taken as given with
  these four values; \<open>getMatches\<close> is \<open>Inl message\<close> when the method throws an error
  with that message.
\<close>

record glob_pattern =
  originalPath :: string
  normalizedPath :: string
  hasMagic :: bool
  getMatches :: "string + string list"

text \<open>
  \<open>class Entry\<close> (lines 51-84). The constructor replaces \<open>/\<close> by \<open>sep\<close> in both
  paths.
\<close>

record entry =
  path :: string
  relativePath :: string
  pattern :: glob_pattern

definition Entry :: "string \<Rightarrow> string \<Rightarrow> glob_pattern \<Rightarrow> entry" where
  "Entry p rel pat =
     \<lparr>path = join_with sep (split_on CHR ''/'' p),
      relativePath = join_with sep (split_on CHR ''/'' rel),
      pattern = pat\<rparr>"

definition name :: "entry \<Rightarrow> string" where
  "name e = basename (path e)"

definition nameWithoutExtension :: "entry \<Rightarrow> string" where
  "nameWithoutExtension e = basenameExt (path e) (extname (path e))"

definition extension :: "entry \<Rightarrow> string" where
  "extension e = drop 1 (extname (path e))"

text \<open>
  \<open>Options\<close> (lines 21-29, and \<open>filter\<close> of line 225). \<open>rename\<close> is dispatched on
  \<open>typeof\<close> (lines 124-132): a string, a function, or anything else.
\<close>

datatype rename_spec = NoRename | StaticName string | Computed "string \<Rightarrow> string"

record options =
  ignoreJunk :: bool
  flat :: bool
  cwd :: string
  overwrite :: "bool option"
  rename :: rename_spec
  filterBy :: "(entry \<Rightarrow> bool) option"

section \<open>Destination paths (index.js, lines 86-133)\<close>

text \<open>\<open>preprocessDestinationPath\<close> (lines 93-114); \<open>pcwd\<close> is \<open>process.cwd()\<close>.\<close>

definition preprocessDestinationPath :: "string \<Rightarrow> entry \<Rightarrow> string \<Rightarrow> options \<Rightarrow> string" where
  "preprocessDestinationPath pcwd entry destination options =
     (if hasMagic (pattern entry) then
        (if flat options then
           (if isAbsolute destination then join [destination, name entry]
            else join [cwd options, destination, name entry])
         else join [destination, relative pcwd (normalizedPath (pattern entry)) (path entry)])
      else if isAbsolute destination then join [destination, name entry]
      else join [cwd options, destination, relative pcwd (cwd options) (path entry)])"

text \<open>\<open>renameFile\<close> (lines 120-133).\<close>

definition renameFile :: "string \<Rightarrow> rename_spec \<Rightarrow> string" where
  "renameFile p rn =
     (let filename = basenameExt p (extname p);
          ext = extname p;
          dir = dirname p
      in case rn of
           StaticName s \<Rightarrow> join [dir, s]
         | Computed f \<Rightarrow> join [dir, f filename @ ext]
         | NoRename \<Rightarrow> p)"

section \<open>The copy operation (index.js, lines 135-310)\<close>

text \<open>
  Every error the operation itself raises is a \<open>CpyError\<close> (required from
  \<open>./cpy-error\<close>) told apart by its message; one constructor stands for each message:
  \<^item> \<open>MissingArguments\<close>: \<open>`source` and `destination` required\<close> (line 173);
  \<^item> \<open>CannotGlob p m\<close>: \<open>Cannot glob `p`: m\<close> (lines 207-210);
  \<^item> \<open>SourceNotFound p\<close>: \<open>Cannot copy `p`: the file doesn't exist\<close> (lines 214-216);
  \<^item> \<open>CannotCopy r t m\<close>: \<open>Cannot copy from `r` to `t`: m\<close> (lines 290-293).

  \<open>InvalidConcurrency\<close> is the \<open>TypeError\<close> with which p-map rejects a concurrency
  that is not at least 1.
\<close>

datatype cpy_error =
    MissingArguments
  | CannotGlob string string
  | SourceNotFound string
  | CannotCopy string string string
  | InvalidConcurrency

text \<open>\<open>source\<close> is a string or an array of strings; \<open>arrify\<close> makes it an array.\<close>

datatype source = One string | Many "string list"

fun arrify :: "source \<Rightarrow> string list" where
  "arrify (One s) = [s]"
| "arrify (Many ss) = ss"

text \<open>The options object as the caller passes it: every property may be absent.\<close>

record given_options =
  givenConcurrency :: "nat option"
  givenIgnoreJunk :: "bool option"
  givenFlat :: "bool option"
  givenCwd :: "string option"
  givenOverwrite :: "bool option"
  givenRename :: rename_spec
  givenFilter :: "(entry \<Rightarrow> bool) option"

text \<open>
  What the operation takes from outside index.js:
  \<^item> \<open>newGlobPattern pattern destination options\<close>: the instance that
    \<open>new GlobPattern(pattern, destination, options)\<close> constructs (the third argument
    of line 185 is always \<open>options\<close>, the accumulator of \<open>reduce\<close> has no property
    \<open>instance\<close>);
  \<^item> \<open>globHasMagic\<close>: globby's \<open>hasMagic\<close>;
  \<^item> \<open>cpFile src dest\<close>: what one call of cp-file does under the options of the
    operation, the progress events it emits in order and then the message of its
    rejection, if it rejects;
  \<^item> \<open>processCwd\<close>: \<open>process.cwd()\<close> during the operation, which \<open>path.relative\<close>
    consults;
  \<^item> \<open>loadCwd\<close>: \<open>process.cwd()\<close> at the time index.js was loaded, the default of
    \<open>cwd\<close> (line 48);
  \<^item> \<open>cpus\<close>: \<open>os.cpus().length\<close>.
\<close>

record copy_run =
  ticks :: "progress_data list"
  failure :: "string option"

record world =
  newGlobPattern :: "string \<Rightarrow> string \<Rightarrow> options \<Rightarrow> glob_pattern"
  globHasMagic :: "string \<Rightarrow> bool"
  cpFile :: "string \<Rightarrow> string \<Rightarrow> copy_run"
  processCwd :: string
  loadCwd :: string
  cpus :: nat

text \<open>Lines 40-49 and 155-158: the defaults and their merge with the given options.\<close>

definition defaultConcurrency :: "world \<Rightarrow> nat" where
  "defaultConcurrency w = (if cpus w = 0 then 1 else cpus w) * 2"

definition mergeOptions :: "world \<Rightarrow> given_options \<Rightarrow> options" where
  "mergeOptions w g =
     \<lparr>ignoreJunk = (case givenIgnoreJunk g of None \<Rightarrow> True | Some b \<Rightarrow> b),
      flat = (case givenFlat g of None \<Rightarrow> False | Some b \<Rightarrow> b),
      cwd = (case givenCwd g of None \<Rightarrow> loadCwd w | Some d \<Rightarrow> d),
      overwrite = givenOverwrite g,
      rename = givenRename g,
      filterBy = givenFilter g\<rparr>"

definition concurrencyOf :: "world \<Rightarrow> given_options \<Rightarrow> nat" where
  "concurrencyOf w g = (case givenConcurrency g of None \<Rightarrow> defaultConcurrency w | Some c \<Rightarrow> c)"

text \<open>Line 170: \<open>str.replace(/\\/g, '/')\<close>.\<close>

definition slashes :: "string \<Rightarrow> string" where
  "slashes str = map (\<lambda>c. if c = CHR 0x5C then CHR ''/'' else c) str"

text \<open>
  The loop of lines 198-223 over the pattern instances; \<open>entries\<close> is the list built so
  far.
\<close>

fun resolvePatterns ::
  "world \<Rightarrow> options \<Rightarrow> glob_pattern list \<Rightarrow> entry list \<Rightarrow> cpy_error + entry list" where
  "resolvePatterns w opts [] entries = Inr entries"
| "resolvePatterns w opts (pat # pats) entries =
     (case getMatches pat of
        Inl message \<Rightarrow> Inl (CannotGlob (originalPath pat) message)
      | Inr matches \<Rightarrow>
          if matches = [] \<and> \<not> globHasMagic w (originalPath pat)
          then Inl (SourceNotFound (originalPath pat))
          else resolvePatterns w opts pats
                 (entries @ map (\<lambda>sourcePath.
                    Entry sourcePath (relative (processCwd w) (cwd opts) sourcePath) pat) matches))"

text \<open>
  Lines 170-227: the patterns, their instances, the entries matched and the filter.
  p-filter keeps the entries for which the predicate holds, in their order.
\<close>

definition patternInstances :: "world \<Rightarrow> source \<Rightarrow> string \<Rightarrow> options \<Rightarrow> glob_pattern list" where
  "patternInstances w source destination opts =
     map (\<lambda>p. newGlobPattern w p destination opts) (map slashes (arrify source))"

definition resolveEntries ::
  "world \<Rightarrow> source \<Rightarrow> string \<Rightarrow> options \<Rightarrow> cpy_error + entry list" where
  "resolveEntries w source destination opts =
     (if arrify source = [] \<or> destination = [] then Inl MissingArguments
      else
        (case resolvePatterns w opts (patternInstances w source destination opts) [] of
           Inl e \<Rightarrow> Inl e
         | Inr entries \<Rightarrow>
             (case filterBy opts of
                None \<Rightarrow> Inr entries
              | Some f \<Rightarrow> Inr (filter f entries))))"

text \<open>Lines 275-282: the path a copy writes to.\<close>

definition finalDestination :: "world \<Rightarrow> string \<Rightarrow> options \<Rightarrow> entry \<Rightarrow> string" where
  "finalDestination w destination opts e =
     renameFile (preprocessDestinationPath (processCwd w) e destination opts) (rename opts)"

text \<open>
  Lines 272-299: \<open>pMap(entries, mapper, {concurrency})\<close>. p-map starts the mapper on the
  first \<open>concurrency\<close> entries; when a mapper returns it stores the value at the entry's
  index and starts the mapper on the next entry not yet started; it resolves with the
  array of values once every mapper has returned, and rejects with the first error a
  mapper throws, after which it starts no further mapper. A mapper that is under way
  keeps running after a rejection, and its progress events keep reaching
  \<open>fileProgressHandler\<close>.

  The copies run concurrently; which of them acts next is not determined by the
  program. A schedule is a list of entry indices: each occurrence of \<open>i\<close> lets the copy
  of entry \<open>i\<close>, if it is under way, take its next step, which is to deliver its next
  progress event or, when it has none left, to finish.
\<close>

datatype copy_state = NotStarted | InFlight | Succeeded | Failed

record run_state =
  copyStates :: "copy_state list"
  remaining :: "progress_data list list"
  started :: nat
  closure :: aggregator
  emitted :: "progress list"
  ret :: "string option list"
  rejection :: "cpy_error option"

definition startNext :: "world \<Rightarrow> string \<Rightarrow> options \<Rightarrow> entry list \<Rightarrow> run_state \<Rightarrow> run_state" where
  "startNext w destination opts entries s =
     (let i = started s in
      if rejection s \<noteq> None \<or> length entries \<le> i then s
      else s\<lparr>copyStates := (copyStates s)[i := InFlight],
             remaining := (remaining s)[i :=
               ticks (cpFile w (path (entries ! i)) (finalDestination w destination opts (entries ! i)))],
             started := i + 1\<rparr>)"

fun startFirst :: "world \<Rightarrow> string \<Rightarrow> options \<Rightarrow> entry list \<Rightarrow> nat \<Rightarrow> run_state \<Rightarrow> run_state" where
  "startFirst w destination opts entries 0 s = s"
| "startFirst w destination opts entries (Suc c) s =
     startFirst w destination opts entries c (startNext w destination opts entries s)"

definition initialRun :: "entry list \<Rightarrow> run_state" where
  "initialRun entries =
     \<lparr>copyStates = replicate (length entries) NotStarted,
      remaining = replicate (length entries) [],
      started = 0,
      closure = initialAggregator,
      emitted = [],
      ret = replicate (length entries) None,
      rejection = None\<rparr>"

definition copyStep ::
  "world \<Rightarrow> string \<Rightarrow> options \<Rightarrow> entry list \<Rightarrow> nat \<Rightarrow> run_state \<Rightarrow> run_state" where
  "copyStep w destination opts entries i s =
     (if i < length entries \<and> copyStates s ! i = InFlight then
        let e = entries ! i; to = finalDestination w destination opts e in
        (case remaining s ! i of
           event # rest \<Rightarrow>
             (case fileProgressHandler (length entries) event (closure s) of
                (c, out) \<Rightarrow>
                  s\<lparr>remaining := (remaining s)[i := rest],
                    closure := c,
                    emitted := emitted s @ (case out of None \<Rightarrow> [] | Some p \<Rightarrow> [p])\<rparr>)
         | [] \<Rightarrow>
             (case failure (cpFile w (path e) to) of
                Some message \<Rightarrow>
                  s\<lparr>copyStates := (copyStates s)[i := Failed],
                    rejection := (case rejection s of
                                    None \<Rightarrow> Some (CannotCopy (relativePath e) to message)
                                  | Some err \<Rightarrow> Some err)\<rparr>
              | None \<Rightarrow>
                  startNext w destination opts entries
                    (s\<lparr>copyStates := (copyStates s)[i := Succeeded],
                       ret := (ret s)[i := Some to]\<rparr>)))
      else s)"

fun runSchedule ::
  "world \<Rightarrow> string \<Rightarrow> options \<Rightarrow> entry list \<Rightarrow> nat list \<Rightarrow> run_state \<Rightarrow> run_state" where
  "runSchedule w destination opts entries [] s = s"
| "runSchedule w destination opts entries (i # sched) s =
     runSchedule w destination opts entries sched (copyStep w destination opts entries i s)"

text \<open>
  How the promise of p-map stands after a run: rejected with the first error, resolved
  with the values once every copy has succeeded, pending (\<open>None\<close>) otherwise.
\<close>

definition settlementOf :: "run_state \<Rightarrow> (cpy_error + string list) option" where
  "settlementOf s =
     (case rejection s of
        Some err \<Rightarrow> Some (Inl err)
      | None \<Rightarrow>
          if list_all (\<lambda>st. st = Succeeded) (copyStates s)
          then Some (Inr (map the (ret s))) else None)"

text \<open>
  \<open>cpy\<close> (lines 140-308) under a schedule: the snapshots passed to
  \<open>progressEmitter.emit\<close> in order (whether or not a listener is attached by then),
  how the returned promise stands, the cp-file calls made, as pairs of source and
  destination, and the state of every entry's copy.
\<close>

record outcome =
  events :: "progress list"
  settlement :: "(cpy_error + string list) option"
  copies :: "(string \<times> string) list"
  states :: "copy_state list"

definition cpy :: "world \<Rightarrow> source \<Rightarrow> string \<Rightarrow> given_options \<Rightarrow> nat list \<Rightarrow> outcome" where
  "cpy w source destination given sched =
     (let concurrency = concurrencyOf w given;
          opts = mergeOptions w given
      in case resolveEntries w source destination opts of
           Inl err \<Rightarrow> \<lparr>events = [], settlement = Some (Inl err), copies = [], states = []\<rparr>
         | Inr entries \<Rightarrow>
             let first = (if entries = [] then [emptySnapshot] else [])
             in if concurrency < 1
                then \<lparr>events = first, settlement = Some (Inl InvalidConcurrency), copies = [],
                      states = replicate (length entries) NotStarted\<rparr>
                else
                  let s = runSchedule w destination opts entries sched
                            (startFirst w destination opts entries concurrency (initialRun entries))
                  in \<lparr>events = first @ emitted s,
                      settlement = settlementOf s,
                      copies = map (\<lambda>e. (path e, finalDestination w destination opts e))
                                 (take (started s) entries),
                      states = copyStates s\<rparr>)"

section \<open>Notions used to state and prove the properties\<close>

text \<open>
  A file name proper: not empty, without a separator, and neither \<open>.\<close> nor \<open>..\<close>.
\<close>

definition isName :: "string \<Rightarrow> bool" where
  "isName s = (s \<noteq> [] \<and> s \<noteq> ''.'' \<and> s \<noteq> ''..'' \<and> CHR ''/'' \<notin> set s)"

text \<open>
  The shape of every segment list \<open>normalizeSegments\<close> returns: some \<open>..\<close> segments (none
  unless \<open>allowAboveRoot\<close>) followed by names. \<open>render\<close> is how \<open>normalize\<close> writes such a
  list out, with the leading and the trailing separator of the path it came from.
\<close>

definition cleanStack :: "bool \<Rightarrow> string list \<Rightarrow> bool" where
  "cleanStack a S = (\<exists>k ns. S = replicate k ''..'' @ ns \<and> (\<forall>n \<in> set ns. isName n) \<and> (\<not> a \<longrightarrow> k = 0))"

definition render :: "bool \<Rightarrow> bool \<Rightarrow> string list \<Rightarrow> string" where
  "render isAbs tr N =
     (if N = [] then (if isAbs then ''/'' else if tr then ''./'' else ''.'')
      else (if isAbs then ''/'' else []) @ join_with ''/'' N @ (if tr then ''/'' else []))"

text \<open>
  The segments of \<open>resolve pcwd y\<close> when \<open>pcwd\<close> is absolute, and what it means for a path
  to lie below a directory: resolved, the directory's segments are a proper leading part of
  the path's segments.
\<close>

definition resolveSegments :: "string \<Rightarrow> string \<Rightarrow> string list" where
  "resolveSegments pcwd y =
     (if isAbsolute y then normalizeSegments False y
      else foldl (normalizeStep False) (normalizeSegments False pcwd) (split_on CHR ''/'' y))"

definition isBelow :: "string \<Rightarrow> string \<Rightarrow> string \<Rightarrow> bool" where
  "isBelow pcwd base p =
     (let fs = pathSegments (resolve pcwd base); ts = pathSegments (resolve pcwd p)
      in length fs < length ts \<and> take (length fs) ts = fs)"

text \<open>
  The destination root in the words of the specification: the destination as given when
  it is absolute, and \<open>join(cwd, destination)\<close> otherwise.
\<close>

definition destinationRoot :: "options \<Rightarrow> string \<Rightarrow> string" where
  "destinationRoot opts destination =
     (if isAbsolute destination then destination else join [cwd opts, destination])"

text \<open>
  Two facts about a run of the copies that every step keeps: a rejection is a copy
  failure, and the value stored for a copy that has succeeded is its destination.
\<close>

definition copyError :: "cpy_error option \<Rightarrow> bool" where
  "copyError r = (case r of None \<Rightarrow> True | Some (CannotCopy a b c) \<Rightarrow> True | Some _ \<Rightarrow> False)"

definition runInv :: "world \<Rightarrow> string \<Rightarrow> options \<Rightarrow> entry list \<Rightarrow> run_state \<Rightarrow> bool" where
  "runInv w d opts es s =
     (length (copyStates s) = length es \<and> length (ret s) = length es \<and>
      (\<forall>i < length es. copyStates s ! i = Succeeded \<longrightarrow> ret s ! i = Some (finalDestination w d opts (es ! i))) \<and>
      (rejection s \<noteq> None \<longrightarrow> (\<exists>i < length es. copyStates s ! i = Failed)))"

text \<open>
  The entries one pattern contributes, in the order of its matches (lines 219-222).
\<close>

definition entriesOf :: "world \<Rightarrow> options \<Rightarrow> glob_pattern \<Rightarrow> entry list" where
  "entriesOf w opts pat =
     (case getMatches pat of
        Inl message \<Rightarrow> []
      | Inr matches \<Rightarrow>
          map (\<lambda>sourcePath. Entry sourcePath (relative (processCwd w) (cwd opts) sourcePath) pat) matches)"

text \<open>
  The schedule that lets the copies act one after the other, each delivering all its
  progress events and then finishing, with the facts its run keeps.
\<close>

definition copyTicks :: "world \<Rightarrow> string \<Rightarrow> options \<Rightarrow> entry \<Rightarrow> progress_data list" where
  "copyTicks w d opts e = ticks (cpFile w (path e) (finalDestination w d opts e))"

definition sequentialSchedule :: "world \<Rightarrow> string \<Rightarrow> options \<Rightarrow> entry list \<Rightarrow> nat list" where
  "sequentialSchedule w d opts es =
     concat (map (\<lambda>i. replicate (Suc (length (copyTicks w d opts (es ! i)))) i) [0..<length es])"

definition seqInv :: "world \<Rightarrow> string \<Rightarrow> options \<Rightarrow> entry list \<Rightarrow> nat \<Rightarrow> run_state \<Rightarrow> bool" where
  "seqInv w d opts es k s =
     (length (copyStates s) = length es \<and> length (remaining s) = length es \<and>
      rejection s = None \<and> started s \<le> length es \<and>
      (k < length es \<longrightarrow> k < started s) \<and>
      (\<forall>i < k. copyStates s ! i = Succeeded) \<and>
      (\<forall>i. k \<le> i \<and> i < started s \<longrightarrow>
          copyStates s ! i = InFlight \<and> remaining s ! i = copyTicks w d opts (es ! i)))"

definition startedInv :: "world \<Rightarrow> string \<Rightarrow> options \<Rightarrow> entry list \<Rightarrow> nat \<Rightarrow> run_state \<Rightarrow> bool" where
  "startedInv w d opts es m s =
     (started s = m \<and> m \<le> length es \<and>
      length (copyStates s) = length es \<and> length (remaining s) = length es \<and>
      rejection s = None \<and>
      (\<forall>i < m. copyStates s ! i = InFlight \<and> remaining s ! i = copyTicks w d opts (es ! i)))"

text \<open>
  The progress events that reach \<open>fileProgressHandler\<close> during a run, in the order
  of their delivery.
\<close>

fun deliveredTicks ::
  "world \<Rightarrow> string \<Rightarrow> options \<Rightarrow> entry list \<Rightarrow> nat list \<Rightarrow> run_state \<Rightarrow> progress_data list" where
  "deliveredTicks w destination opts entries [] s = []"
| "deliveredTicks w destination opts entries (i # sched) s =
     (if i < length entries \<and> copyStates s ! i = InFlight
      then (case remaining s ! i of [] \<Rightarrow> [] | event # rest \<Rightarrow> [event])
      else [])
     @ deliveredTicks w destination opts entries sched (copyStep w destination opts entries i s)"

text \<open>
  A concrete setting for the examples. The working directory is \<open>/w\<close> and holds the
  files \<open>a.txt\<close>, \<open>sub/b.txt\<close>, \<open>src/x.md\<close> and \<open>src/y/z.md\<close>. A pattern is wildcarded
  when it contains \<open>*\<close>; the pattern \<open>src/**/*.md\<close> matches the two files under \<open>src\<close>,
  the patterns \<open>a.txt\<close> and \<open>sub/b.txt\<close> match the files they name, and every other
  pattern matches nothing. Every copy reports three progress events and succeeds.
\<close>

definition fixtureWorld :: world where
  "fixtureWorld =
     \<lparr>newGlobPattern = (\<lambda>p d opts.
        \<lparr>originalPath = p,
         normalizedPath = ''/w/src'',
         hasMagic = (CHR ''*'' \<in> set p),
         getMatches =
           (if p = ''src/**/*.md'' then Inr [''/w/src/x.md'', ''/w/src/y/z.md'']
            else if p = ''a.txt'' then Inr [''/w/a.txt'']
            else if p = ''sub/b.txt'' then Inr [''/w/sub/b.txt'']
            else Inr [])\<rparr>),
      globHasMagic = (\<lambda>p. CHR ''*'' \<in> set p),
      cpFile = (\<lambda>s d. \<lparr>ticks = [tick s 0 0, tick s 5 (1/2), tick s 10 1], failure = None\<rparr>),
      processCwd = ''/w'',
      loadCwd = ''/w'',
      cpus = 1\<rparr>"

definition noOptions :: given_options where
  "noOptions =
     \<lparr>givenConcurrency = None, givenIgnoreJunk = None, givenFlat = None, givenCwd = None,
      givenOverwrite = None, givenRename = NoRename, givenFilter = None\<rparr>"

definition flatOptions :: given_options where
  "flatOptions = noOptions\<lparr>givenFlat := Some True\<rparr>"

definition fixtureEntry :: "string \<Rightarrow> string \<Rightarrow> entry" where
  "fixtureEntry pat p =
     Entry p (relative ''/w'' ''/w'' p)
       (newGlobPattern fixtureWorld pat ''out'' (mergeOptions fixtureWorld noOptions))"

section \<open>Properties of the progress aggregation\<close>

lemma halvings_small: "m < 2 ^ 53 \<Longrightarrow> halvings m = 0"
  by (subst halvings.simps) simp

lemma toDouble_exact: "\<bar>x\<bar> < 2 ^ 53 \<Longrightarrow> toDouble x = x"
  by (simp add: toDouble_def Let_def halvings_small)

lemma statusOf_handler:
  "statusOf (fst (fileProgressHandler n e s)) = (statusOf s)(src e := statusOfEvent e)"
  by (auto simp: fileProgressHandler_def statusOf_def statusOfEvent_def Let_def fun_eq_iff split: option.splits)

lemma handler_files_mono: "completedFiles s \<le> completedFiles (fst (fileProgressHandler n e s))"
  by (simp add: fileProgressHandler_def Let_def)

lemma handler_emit:
  "snd (fileProgressHandler n e s) = Some p \<Longrightarrow>
     completedFiles p = completedFiles (fst (fileProgressHandler n e s)) \<and>
     completedSize p = completedSize (fst (fileProgressHandler n e s)) \<and>
     totalFiles p = n \<and>
     percentDone p = js_div (completedFiles (fst (fileProgressHandler n e s))) n"
  by (auto simp: fileProgressHandler_def Let_def split: if_splits)

lemma handler_silent: "snd (fileProgressHandler n e s) = None \<Longrightarrow> fst (fileProgressHandler n e s) = s"
  by (auto simp: fileProgressHandler_def Let_def split: if_splits)

lemma handler_size_mono:
  assumes "written (statusOf s (src e)) \<le> written e"
    and "\<bar>completedSize s - written (statusOf s (src e))\<bar> < 2 ^ 53"
    and "\<bar>completedSize s - written (statusOf s (src e)) + written e\<bar> < 2 ^ 53"
  shows "completedSize s \<le> completedSize (fst (fileProgressHandler n e s))"
proof -
  have "toDouble (toDouble (completedSize s - written (statusOf s (src e))) + written e) =
        completedSize s - written (statusOf s (src e)) + written e"
    using assms(2,3) by (simp add: toDouble_exact)
  then show ?thesis using assms(1) by (simp add: fileProgressHandler_def Let_def)
qed

lemma fst_ingest_Cons:
  "fst (ingest n (e # es) s) = fst (ingest n es (fst (fileProgressHandler n e s)))"
  by (simp split: prod.splits)

lemma snd_ingest_Cons:
  "snd (ingest n (e # es) s) =
     (case snd (fileProgressHandler n e s) of None \<Rightarrow> [] | Some p \<Rightarrow> [p])
       @ snd (ingest n es (fst (fileProgressHandler n e s)))"
  by (simp split: prod.splits)

lemma ingest_files:
  "completedFiles s \<le> completedFiles (fst (ingest n es s)) \<and>
   (\<forall>p \<in> set (snd (ingest n es s)). completedFiles s \<le> completedFiles p) \<and>
   sorted (map completedFiles (snd (ingest n es s)))"
proof (induction es arbitrary: s)
  case Nil
  then show ?case by simp
next
  case (Cons e es)
  let ?s' = "fst (fileProgressHandler n e s)"
  have m: "completedFiles s \<le> completedFiles ?s'" by (rule handler_files_mono)
  note ih = Cons.IH[of ?s']
  show ?case
  proof (cases "snd (fileProgressHandler n e s)")
    case None
    then show ?thesis using m ih by (auto simp only: fst_ingest_Cons snd_ingest_Cons option.case append_Nil intro: order_trans)
  next
    case (Some p)
    then have "completedFiles p = completedFiles ?s'" using handler_emit by blast
    then show ?thesis using Some m ih
      by (auto simp: fst_ingest_Cons snd_ingest_Cons simp del: ingest.simps intro: order_trans)
  qed
qed

lemma ingest_sizes:
  "writtenNeverDrops (statusOf s) es \<Longrightarrow> sizesExact n es s \<Longrightarrow>
   completedSize s \<le> completedSize (fst (ingest n es s)) \<and>
   (\<forall>p \<in> set (snd (ingest n es s)). completedSize s \<le> completedSize p) \<and>
   sorted (map completedSize (snd (ingest n es s)))"
proof (induction es arbitrary: s)
  case Nil
  then show ?case by simp
next
  case (Cons e es)
  let ?s' = "fst (fileProgressHandler n e s)"
  have st: "statusOf ?s' = (statusOf s)(src e := statusOfEvent e)" by (rule statusOf_handler)
  have m: "completedSize s \<le> completedSize ?s'"
    using handler_size_mono [of s e n] Cons.prems by simp
  have v: "writtenNeverDrops (statusOf ?s') es" using Cons.prems(1) st by simp
  have x: "sizesExact n es ?s'" using Cons.prems(2) by simp
  note ih = Cons.IH [OF v x]
  show ?case
  proof (cases "snd (fileProgressHandler n e s)")
    case None
    then show ?thesis using m ih by (auto simp only: fst_ingest_Cons snd_ingest_Cons option.case append_Nil intro: order_trans)
  next
    case (Some p)
    then have "completedSize p = completedSize ?s'" using handler_emit by blast
    then show ?thesis using Some m ih
      by (auto simp: fst_ingest_Cons snd_ingest_Cons simp del: ingest.simps intro: order_trans)
  qed
qed

lemma ingest_status: "statusOf (fst (ingest n es s)) = lastStatus (statusOf s) es"
proof (induction es arbitrary: s)
  case Nil
  then show ?case by simp
next
  case (Cons e es)
  show ?case using Cons.IH[of "fst (fileProgressHandler n e s)"] statusOf_handler[of n e s]
    by (simp only: fst_ingest_Cons lastStatus.simps)
qed

lemma ingest_silent: "snd (ingest n es s) = [] \<Longrightarrow> fst (ingest n es s) = s"
proof (induction es arbitrary: s)
  case Nil
  then show ?case by simp
next
  case (Cons e es)
  from Cons.prems have a: "snd (fileProgressHandler n e s) = None"
    and b: "snd (ingest n es (fst (fileProgressHandler n e s))) = []"
    by (auto simp: snd_ingest_Cons simp del: ingest.simps split: option.splits)
  show ?case using Cons.IH[OF b] handler_silent[OF a] by (simp only: fst_ingest_Cons)
qed

lemma ingest_last:
  "snd (ingest n es s) \<noteq> [] \<Longrightarrow>
     completedFiles (last (snd (ingest n es s))) = completedFiles (fst (ingest n es s)) \<and>
     totalFiles (last (snd (ingest n es s))) = n \<and>
     percentDone (last (snd (ingest n es s))) = js_div (completedFiles (fst (ingest n es s))) n"
proof (induction es arbitrary: s)
  case Nil
  then show ?case by simp
next
  case (Cons e es)
  let ?s' = "fst (fileProgressHandler n e s)"
  show ?case
  proof (cases "snd (ingest n es ?s') = []")
    case True
    then have eq: "fst (ingest n es ?s') = ?s'" by (rule ingest_silent)
    from Cons.prems True obtain p where p: "snd (fileProgressHandler n e s) = Some p"
      by (auto simp: snd_ingest_Cons simp del: ingest.simps split: option.splits)
    show ?thesis using handler_emit[OF p] True eq p
      by (simp add: fst_ingest_Cons snd_ingest_Cons del: ingest.simps)
  next
    case False
    then show ?thesis using Cons.IH[OF False]
      by (simp add: fst_ingest_Cons snd_ingest_Cons del: ingest.simps)
  qed
qed


lemma doneSet_dom: "doneSet s \<subseteq> dom (copyStatus s)"
  by (auto simp: doneSet_def statusOf_def defaultStatus_def split: option.splits)

lemma handler_dom: "finite (dom (copyStatus s)) \<Longrightarrow> finite (dom (copyStatus (fst (fileProgressHandler n e s))))"
  by (simp add: fileProgressHandler_def Let_def)

lemma handler_count:
  assumes fin: "finite (dom (copyStatus s))"
    and inv: "completedFiles s = card (doneSet s)"
    and stay: "percent (statusOf s (src e)) = 1 \<longrightarrow> percent e = 1"
  shows "completedFiles (fst (fileProgressHandler n e s)) = card (doneSet (fst (fileProgressHandler n e s)))"
proof -
  let ?s' = "fst (fileProgressHandler n e s)"
  have finD: "finite (doneSet s)" using fin doneSet_dom finite_subset by blast
  have D': "doneSet ?s' = (if percent e = 1 then insert (src e) (doneSet s) else doneSet s - {src e})"
    using statusOf_handler[of n e s] by (auto simp: doneSet_def statusOfEvent_def)
  show ?thesis
  proof (cases "percent e = 1")
    case True
    show ?thesis
    proof (cases "percent (statusOf s (src e)) = 1")
      case True
      then have "src e \<in> doneSet s" by (simp add: doneSet_def)
      then have "doneSet ?s' = doneSet s" using D' \<open>percent e = 1\<close> by auto
      moreover have "completedFiles ?s' = completedFiles s" using True \<open>percent e = 1\<close>
        by (simp add: fileProgressHandler_def Let_def)
      ultimately show ?thesis using inv by simp
    next
      case False
      then have "src e \<notin> doneSet s" by (simp add: doneSet_def)
      then have "card (doneSet ?s') = Suc (card (doneSet s))" using D' \<open>percent e = 1\<close> finD by simp
      moreover have "completedFiles ?s' = Suc (completedFiles s)" using False \<open>percent e = 1\<close>
        by (auto simp add: fileProgressHandler_def Let_def)
      ultimately show ?thesis using inv by simp
    qed
  next
    case False
    then have "src e \<notin> doneSet s" using stay by (auto simp: doneSet_def)
    then have "doneSet ?s' = doneSet s" using D' False by auto
    moreover have "completedFiles ?s' = completedFiles s" using False
      by (simp add: fileProgressHandler_def Let_def)
    ultimately show ?thesis using inv by simp
  qed
qed

lemma ingest_count:
  "finite (dom (copyStatus s)) \<Longrightarrow> completedFiles s = card (doneSet s) \<Longrightarrow> staysFinished (statusOf s) es \<Longrightarrow>
     completedFiles (fst (ingest n es s)) = card (doneSet (fst (ingest n es s)))"
proof (induction es arbitrary: s)
  case Nil
  then show ?case by simp
next
  case (Cons e es)
  let ?s' = "fst (fileProgressHandler n e s)"
  have st: "statusOf ?s' = (statusOf s)(src e := statusOfEvent e)" by (rule statusOf_handler)
  have v: "staysFinished (statusOf ?s') es" using Cons.prems(3) st by simp
  have c: "completedFiles ?s' = card (doneSet ?s')"
    using handler_count[OF Cons.prems(1,2)] Cons.prems(3) by simp
  show ?case using Cons.IH[OF handler_dom[OF Cons.prems(1)] c v] by (simp only: fst_ingest_Cons)
qed

lemma lastStatus_untouched: "p \<notin> src ` set es \<Longrightarrow> lastStatus prev es p = prev p"
  by (induction es arbitrary: prev) auto


text \<open>
  Claim C10. For a source path that is not yet in the status map, a first tick with
  \<open>written = 0\<close> and \<open>percent = 0\<close> emits no snapshot and changes nothing: the status
  assumed for an unseen path is \<open>{written: 0, percent: 0}\<close>, so the tick compares as
  unchanged.
\<close>

theorem first_zero_tick_silent:
  "copyStatus s (src e) = None \<Longrightarrow> written e = 0 \<Longrightarrow> percent e = 0 \<Longrightarrow>
     fileProgressHandler n e s = (s, None)"
  by (simp add: fileProgressHandler_def statusOf_def defaultStatus_def)

theorem first_zero_tick_silent_witness:
  "copyStatus initialAggregator (src (tick ''a.txt'' 0 0)) = None \<and>
   written (tick ''a.txt'' 0 0) = 0 \<and> percent (tick ''a.txt'' 0 0) = 0 \<and>
   fileProgressHandler 2 (tick ''a.txt'' 0 0) initialAggregator = (initialAggregator, None)"
  using first_zero_tick_silent [of initialAggregator "tick ''a.txt'' 0 0" 2]
  by (simp add: initialAggregator_def tick_def)

text \<open>
  Claim C7. A tick whose \<open>(written, percent)\<close> equals the status recorded for its path
  emits nothing and leaves the aggregator state as it is; after any tick has been
  handled, handling the same tick again is such a no-op, so ingesting a tick twice gives
  the state and the emitted snapshots of ingesting it once.
\<close>

theorem repeated_tick_idempotent:
  "(copyStatus s (src e) = Some st \<and> written st = written e \<and> percent st = percent e \<longrightarrow>
      fileProgressHandler n e s = (s, None)) \<and>
   fileProgressHandler n e (fst (fileProgressHandler n e s)) =
      (fst (fileProgressHandler n e s), None) \<and>
   fst (ingest n [e, e] s) = fst (ingest n [e] s) \<and>
   snd (ingest n [e, e] s) = snd (ingest n [e] s)"
proof -
  have a: "copyStatus s (src e) = Some st \<and> written st = written e \<and> percent st = percent e \<longrightarrow>
      fileProgressHandler n e s = (s, None)"
    by (simp add: fileProgressHandler_def statusOf_def)
  have st: "statusOf (fst (fileProgressHandler n e s)) (src e) = statusOfEvent e"
    by (simp add: statusOf_handler)
  have b: "fileProgressHandler n e (fst (fileProgressHandler n e s)) =
      (fst (fileProgressHandler n e s), None)"
    unfolding fileProgressHandler_def [of n e "fst (fileProgressHandler n e s)"] st
    by (simp add: statusOfEvent_def)
  have c: "fst (ingest n [e, e] s) = fst (ingest n [e] s)"
    using b by (simp add: fst_ingest_Cons del: ingest.simps)
  have d: "snd (ingest n [e, e] s) = snd (ingest n [e] s)"
    using b by (simp add: snd_ingest_Cons del: ingest.simps)
  show ?thesis using a b c d by blast
qed

theorem repeated_tick_idempotent_witness:
  "copyStatus (fst (fileProgressHandler 1 (tick ''a.txt'' 5 (1/2)) initialAggregator))
      (src (tick ''a.txt'' 5 (1/2))) = Some \<lparr>written = 5, percent = 1/2\<rparr> \<and>
   fileProgressHandler 1 (tick ''a.txt'' 5 (1/2))
      (fst (fileProgressHandler 1 (tick ''a.txt'' 5 (1/2)) initialAggregator)) =
      (fst (fileProgressHandler 1 (tick ''a.txt'' 5 (1/2)) initialAggregator), None) \<and>
   snd (ingest 1 [tick ''a.txt'' 5 (1/2), tick ''a.txt'' 5 (1/2)] initialAggregator) =
     [\<lparr>completedFiles = 0, completedSize = 5, totalFiles = 1, percentDone = Num 0\<rparr>]"
proof -
  let ?e = "tick ''a.txt'' 5 (1/2)"
  let ?s = "fst (fileProgressHandler 1 ?e initialAggregator)"
  have c: "copyStatus ?s (src ?e) = Some \<lparr>written = 5, percent = 1/2\<rparr>"
    by (simp add: fileProgressHandler_def statusOf_def defaultStatus_def initialAggregator_def tick_def
        Let_def)
  have h: "written \<lparr>written = 5, percent = 1/2\<rparr> = written ?e \<and>
           percent \<lparr>written = 5, percent = 1/2\<rparr> = percent ?e"
    by (simp add: tick_def)
  have one: "snd (ingest 1 [?e] initialAggregator) =
     [\<lparr>completedFiles = 0, completedSize = 5, totalFiles = 1, percentDone = Num 0\<rparr>]"
    by (simp add: fileProgressHandler_def statusOf_def defaultStatus_def initialAggregator_def
        tick_def js_div_def toDouble_exact Let_def)
  from repeated_tick_idempotent [of ?s ?e "\<lparr>written = 5, percent = 1/2\<rparr>" 1] c h
  have "fileProgressHandler 1 ?e ?s = (?s, None)" by blast
  moreover from repeated_tick_idempotent [of initialAggregator ?e "\<lparr>written = 5, percent = 1/2\<rparr>" 1]
  have "snd (ingest 1 [?e, ?e] initialAggregator) = snd (ingest 1 [?e] initialAggregator)" by blast
  ultimately show ?thesis using c one by simp
qed

text \<open>
  What the aggregation does for the ticks of copies with distinct source paths. The
  emitted \<open>completedFiles\<close> values are non-decreasing for every sequence of raw ticks.
  The emitted \<open>completedSize\<close> values are non-decreasing when no file reports fewer
  written bytes than it reported before (\<open>writtenNeverDrops\<close>) and the sizes stay within
  the integers a double holds exactly (\<open>sizesExact\<close>). When the entries have pairwise
  distinct source paths, every tick belongs to one of them, no file reports another
  percentage after \<open>percent = 1\<close> (\<open>staysFinished\<close>) and the last tick of every entry
  reports \<open>percent = 1\<close>, the last snapshot emitted has \<open>completedFiles\<close> equal to
  \<open>totalFiles\<close>, the number of entries, and overall percent \<open>1\<close>. Duplicate ticks and
  any interleaving of the files' ticks are allowed.
\<close>

lemma progress_of_distinct_sources:
  "sorted (map completedFiles (progressEvents n es)) \<and>
   (writtenNeverDrops (\<lambda>p. defaultStatus) es \<and> sizesExact n es initialAggregator \<longrightarrow>
      sorted (map completedSize (progressEvents n es))) \<and>
   (staysFinished (\<lambda>p. defaultStatus) es \<and> n = length paths \<and> distinct paths \<and>
    (\<forall>e \<in> set es. src e \<in> set paths) \<and>
    (\<forall>p \<in> set paths. percent (lastStatus (\<lambda>p. defaultStatus) es p) = 1) \<longrightarrow>
      progressEvents n es \<noteq> [] \<and>
      completedFiles (last (progressEvents n es)) = totalFiles (last (progressEvents n es)) \<and>
      totalFiles (last (progressEvents n es)) = n \<and>
      percentDone (last (progressEvents n es)) = Num 1)"
proof -
  let ?d = "\<lambda>p::string. defaultStatus"
  let ?i = initialAggregator
  have d: "statusOf ?i = ?d" by (simp add: statusOf_def initialAggregator_def fun_eq_iff)
  have z: "completedFiles ?i = 0" "completedSize ?i = 0" "copyStatus ?i = Map.empty"
    by (simp_all add: initialAggregator_def)
  have files: "sorted (map completedFiles (progressEvents n es))"
    using ingest_files [of ?i n es] z by (cases "n = 0") (auto simp: progressEvents_def emptySnapshot_def)
  have sizes: "sorted (map completedSize (progressEvents n es))"
    if v: "writtenNeverDrops ?d es" and x: "sizesExact n es ?i"
    using ingest_sizes [of ?i es n] v x d z by (cases "n = 0") (auto simp: progressEvents_def emptySnapshot_def)
  have final: "progressEvents n es \<noteq> [] \<and>
      completedFiles (last (progressEvents n es)) = totalFiles (last (progressEvents n es)) \<and>
      totalFiles (last (progressEvents n es)) = n \<and>
      percentDone (last (progressEvents n es)) = Num 1"
    if v: "staysFinished ?d es" and n: "n = length paths" and dist: "distinct paths"
      and sub: "\<forall>e \<in> set es. src e \<in> set paths"
      and fin: "\<forall>p \<in> set paths. percent (lastStatus ?d es p) = 1"
  proof (cases "n = 0")
    case True
    then have "es = []" using n sub by (cases es) auto
    then show ?thesis using True by (simp add: progressEvents_def emptySnapshot_def)
  next
    case False
    let ?f = "fst (ingest n es ?i)"
    have st: "statusOf ?f = lastStatus ?d es" using ingest_status [of n es ?i] d by simp
    have "doneSet ?f = set paths"
    proof
      show "doneSet ?f \<subseteq> set paths"
      proof
        fix p assume "p \<in> doneSet ?f"
        then have one: "percent (lastStatus ?d es p) = 1" using st by (simp add: doneSet_def)
        have "p \<in> src ` set es"
        proof (rule ccontr)
          assume "p \<notin> src ` set es"
          then have "lastStatus ?d es p = defaultStatus" by (simp add: lastStatus_untouched)
          then show False using one by (simp add: defaultStatus_def)
        qed
        then show "p \<in> set paths" using sub by auto
      qed
      show "set paths \<subseteq> doneSet ?f" using fin st by (auto simp: doneSet_def)
    qed
    moreover have "completedFiles ?f = card (doneSet ?f)"
      using ingest_count [of ?i es n] v d z by (simp add: doneSet_def defaultStatus_def)
    ultimately have cf: "completedFiles ?f = n" using dist n by (simp add: distinct_card)
    have ne: "snd (ingest n es ?i) \<noteq> []"
    proof
      assume "snd (ingest n es ?i) = []"
      then have "?f = ?i" by (rule ingest_silent)
      then show False using cf z False by simp
    qed
    have "js_div n n = Num 1" using False by (simp add: js_div_def)
    then show ?thesis using ingest_last [OF ne] cf ne False by (simp add: progressEvents_def)
  qed
  show ?thesis using files sizes final by blast
qed

lemma progress_of_distinct_sources_example:
  "map completedFiles (progressEvents 2
     [tick ''a'' 3 (1/2), tick ''b'' 0 0, tick ''a'' 3 (1/2), tick ''b'' 4 1, tick ''a'' 6 1]) = [0, 1, 2] \<and>
   map completedSize (progressEvents 2
     [tick ''a'' 3 (1/2), tick ''b'' 0 0, tick ''a'' 3 (1/2), tick ''b'' 4 1, tick ''a'' 6 1]) = [3, 7, 10] \<and>
   percentDone (last (progressEvents 2
     [tick ''a'' 3 (1/2), tick ''b'' 0 0, tick ''a'' 3 (1/2), tick ''b'' 4 1, tick ''a'' 6 1])) = Num 1"
  by (simp add: progressEvents_def fileProgressHandler_def statusOf_def defaultStatus_def
        initialAggregator_def tick_def Let_def js_div_def toDouble_exact)

text \<open>
  Beyond \<open>2^53\<close> the two operations of lines 251-252 round: with the ticks
  \<open>(a, 1, 1/2)\<close>, \<open>(b, 2^53, 1/2)\<close>, \<open>(c, 2, 1/2)\<close>, \<open>(a, 1, 1)\<close> the emitted
  \<open>completedSize\<close> is \<open>1\<close>, \<open>2^53\<close>, \<open>2^53 + 2\<close> and then \<open>2^53\<close> again.
\<close>

lemma size_rounding_example:
  "map completedSize (progressEvents 3
     [tick ''a'' 1 (1/2), tick ''b'' 9007199254740992 (1/2), tick ''c'' 2 (1/2), tick ''a'' 1 1]) =
     [1, 9007199254740992, 9007199254740994, 9007199254740992]"
  by code_simp

section \<open>Properties of paths and of the destination paths\<close>

lemma split_on_nonempty: "split_on c xs \<noteq> []"
  by (induction xs) (auto split: list.splits)

lemma split_on_append: "split_on c (xs @ c # ys) = split_on c xs @ split_on c ys"
  by (induction xs) (auto split: list.splits simp: split_on_nonempty)

lemma split_on_single: "c \<notin> set s \<Longrightarrow> split_on c s = [s]"
  by (induction s) auto

lemma split_on_free: "s \<in> set (split_on c xs) \<Longrightarrow> c \<notin> set s"
  by (induction xs arbitrary: s) (auto split: if_splits list.splits)

lemma join_with_Cons: "ss \<noteq> [] \<Longrightarrow> join_with sp (s # ss) = s @ sp @ join_with sp ss"
  by (cases ss) auto

lemma join_with_snoc: "ss \<noteq> [] \<Longrightarrow> join_with sp (ss @ [s]) = join_with sp ss @ sp @ s"
  by (induction sp ss rule: join_with.induct) auto

lemma split_on_join: "ss \<noteq> [] \<Longrightarrow> \<forall>s \<in> set ss. c \<notin> set s \<Longrightarrow> split_on c (join_with [c] ss) = ss"
proof (induction ss)
  case Nil
  then show ?case by simp
next
  case (Cons s ss)
  show ?case
  proof (cases "ss = []")
    case True
    then show ?thesis using Cons.prems by (simp add: split_on_single)
  next
    case False
    then show ?thesis using Cons by (simp add: join_with_Cons split_on_append split_on_single)
  qed
qed

lemma join_split: "join_with [c] (split_on c xs) = xs"
proof (induction xs)
  case Nil
  then show ?case by simp
next
  case (Cons x xs)
  obtain s ss where eq: "split_on c xs = s # ss" using split_on_nonempty[of c xs] by (cases "split_on c xs") auto
  show ?case
  proof (cases "x = c")
    case True
    then show ?thesis using Cons eq by simp
  next
    case False
    then show ?thesis using Cons eq by (cases ss) auto
  qed
qed

lemma Entry_posix: "Entry p rel pat = \<lparr>path = p, relativePath = rel, pattern = pat\<rparr>"
  by (simp add: Entry_def sep_def join_split)

lemma cleanStack_Nil: "cleanStack a []"
  by (simp add: cleanStack_def)

lemma normalizeStep_name: "isName s \<Longrightarrow> normalizeStep a S s = S @ [s]"
  by (auto simp: normalizeStep_def isName_def)

lemma normalizeStep_skip: "s = [] \<or> s = ''.'' \<Longrightarrow> normalizeStep a S s = S"
  by (auto simp: normalizeStep_def)

lemma cleanStack_step:
  assumes "cleanStack a S" and "CHR ''/'' \<notin> set s"
  shows "cleanStack a (normalizeStep a S s)"
proof -
  from assms(1) obtain k ns where S: "S = replicate k ''..'' @ ns" and ns: "\<forall>n \<in> set ns. isName n"
    and k: "\<not> a \<longrightarrow> k = 0" by (auto simp: cleanStack_def)
  consider "s = [] \<or> s = ''.''" | "s = ''..''" | "isName s" using assms(2) by (auto simp: isName_def)
  then show ?thesis
  proof cases
    case 1
    then show ?thesis using assms(1) by (simp add: normalizeStep_skip)
  next
    case 2
    show ?thesis
    proof (cases "ns = []")
      case True
      then have SS: "S = replicate k ''..''" using S by simp
      have "normalizeStep a S s = (if a then replicate (Suc k) ''..'' else S)"
        using 2 SS k by (cases k) (auto simp: normalizeStep_def replicate_append_same)
      then show ?thesis using assms(1) by (auto simp: cleanStack_def intro!: exI[of _ "Suc k"] exI[of _ "[]"])
    next
      case False
      then have l: "last S = last ns" "S \<noteq> []" using S by auto
      have "isName (last ns)" using False ns by simp
      then have "last S \<noteq> ''..''" using l by (auto simp: isName_def)
      then have "normalizeStep a S s = replicate k ''..'' @ butlast ns"
        using 2 l S False by (simp add: normalizeStep_def butlast_append)
      moreover have "\<forall>n \<in> set (butlast ns). isName n" using ns by (meson in_set_butlastD)
      ultimately show ?thesis using k unfolding cleanStack_def by blast
    qed
  next
    case 3
    then have "normalizeStep a S s = replicate k ''..'' @ (ns @ [s])" using S by (simp add: normalizeStep_name)
    moreover have "\<forall>n \<in> set (ns @ [s]). isName n" using ns 3 by simp
    ultimately show ?thesis using k unfolding cleanStack_def by blast
  qed
qed

lemma cleanStack_foldl:
  "cleanStack a S \<Longrightarrow> \<forall>s \<in> set xs. CHR ''/'' \<notin> set s \<Longrightarrow> cleanStack a (foldl (normalizeStep a) S xs)"
  by (induction xs arbitrary: S) (auto simp: cleanStack_step)

lemma cleanStack_segments: "cleanStack a (normalizeSegments a p)"
  unfolding normalizeSegments_def
  by (rule cleanStack_foldl) (auto simp: cleanStack_Nil dest: split_on_free)

lemma snoc_replicate: "S @ [s] = replicate k x \<Longrightarrow> k \<noteq> 0 \<and> S = replicate (k - 1) x \<and> s = x"
proof (cases k)
  case 0
  assume "S @ [s] = replicate k x"
  then show ?thesis using 0 by simp
next
  case (Suc j)
  assume "S @ [s] = replicate k x"
  then have "S @ [s] = replicate j x @ [x]" using Suc by (simp only: replicate_Suc replicate_append_same)
  then show ?thesis using Suc by simp
qed

lemma cleanStackI:
  "S = replicate k ''..'' @ ns \<Longrightarrow> \<forall>n \<in> set ns. isName n \<Longrightarrow> (\<not> a \<longrightarrow> k = 0) \<Longrightarrow> cleanStack a S"
  unfolding cleanStack_def by blast

lemma cleanStack_butlast: "cleanStack a (S @ [s]) \<Longrightarrow> cleanStack a S"
proof -
  assume "cleanStack a (S @ [s])"
  then obtain k ns where S: "S @ [s] = replicate k ''..'' @ ns" and ns: "\<forall>n \<in> set ns. isName n"
    and k: "\<not> a \<longrightarrow> k = 0" unfolding cleanStack_def by blast
  show ?thesis
  proof (cases "ns = []")
    case True
    have e: "S @ [s] = replicate k ''..''" unfolding S True by simp
    have k0: "k \<noteq> 0" and SS: "S = replicate (k - 1) ''..''"
      using snoc_replicate [OF e] by blast+
    have 1: "S = replicate (k - 1) ''..'' @ []" using SS by simp
    have 2: "\<forall>n \<in> set ([]::string list). isName n" by simp
    have 3: "\<not> a \<longrightarrow> k - 1 = 0" using k by simp
    show ?thesis by (rule cleanStackI [OF 1 2 3])
  next
    case False
    have "butlast (S @ [s]) = butlast (replicate k ''..'' @ ns)" unfolding S ..
    also have "\<dots> = replicate k ''..'' @ butlast ns" using False by (simp add: butlast_append)
    finally have 1: "S = replicate k ''..'' @ butlast ns" by simp
    have 2: "\<forall>n \<in> set (butlast ns). isName n" using ns by (meson in_set_butlastD)
    show ?thesis by (rule cleanStackI [OF 1 2 k])
  qed
qed

lemma cleanStack_elems:
  assumes "cleanStack a S" and "s \<in> set S"
  shows "s \<noteq> [] \<and> s \<noteq> ''.'' \<and> CHR ''/'' \<notin> set s"
proof -
  from assms(1) obtain k ns where S: "S = replicate k ''..'' @ ns" and ns: "\<forall>n \<in> set ns. isName n"
    unfolding cleanStack_def by blast
  from assms(2) have "s = ''..'' \<or> s \<in> set ns" unfolding S by auto
  then show ?thesis
  proof
    assume "s = ''..''"
    then show ?thesis by simp
  next
    assume "s \<in> set ns"
    then have "isName s" using ns by blast
    then show ?thesis by (simp add: isName_def)
  qed
qed

lemma cleanStack_last: "cleanStack a (S @ [s]) \<Longrightarrow> s = ''..'' \<Longrightarrow> a \<and> (S = [] \<or> last S = ''..'')"
proof -
  assume c: "cleanStack a (S @ [s])" and s: "s = ''..''"
  then obtain k ns where S: "S @ [s] = replicate k ''..'' @ ns" and ns: "\<forall>n \<in> set ns. isName n"
    and k: "\<not> a \<longrightarrow> k = 0" by (auto simp: cleanStack_def)
  have "ns = []"
  proof (rule ccontr)
    assume "ns \<noteq> []"
    then have "last (S @ [s]) = last ns" using S by simp
    then have "last ns = s" by simp
    moreover have "isName (last ns)" using \<open>ns \<noteq> []\<close> ns by simp
    ultimately show False using s by (simp add: isName_def)
  qed
  then have e: "S @ [s] = replicate k ''..''" using S by simp
  have k0: "k \<noteq> 0" and SS: "S = replicate (k - 1) ''..''"
    using snoc_replicate [OF e] by blast+
  have "a" using k k0 by blast
  moreover have "S = [] \<or> last S = ''..''"
  proof (cases "k - 1")
    case 0
    then show ?thesis using SS by simp
  next
    case (Suc j)
    then show ?thesis using SS by simp
  qed
  ultimately show ?thesis by simp
qed

lemma cleanStack_refold: "cleanStack a S \<Longrightarrow> foldl (normalizeStep a) [] S = S"
proof (induction S rule: rev_induct)
  case Nil
  then show ?case by simp
next
  case (snoc s S)
  have cS: "cleanStack a S" using snoc.prems by (rule cleanStack_butlast)
  have el: "s \<noteq> [] \<and> s \<noteq> ''.'' \<and> CHR ''/'' \<notin> set s" using cleanStack_elems[OF snoc.prems, of s] by simp
  show ?case
  proof (cases "s = ''..''")
    case True
    then show ?thesis using snoc.IH[OF cS] cleanStack_last[OF snoc.prems True]
      by (auto simp: normalizeStep_def)
  next
    case False
    then have "isName s" using el by (simp add: isName_def)
    then show ?thesis using snoc.IH[OF cS] by (simp add: normalizeStep_name)
  qed
qed

lemma join_with_empty_iff: "\<forall>s \<in> set N. s \<noteq> [] \<Longrightarrow> (join_with sp N = []) = (N = [])"
  by (induction sp N rule: join_with.induct) auto

lemma cleanStack_nonempty_elems: "cleanStack a N \<Longrightarrow> \<forall>s \<in> set N. s \<noteq> []"
  using cleanStack_elems by blast

lemma cleanStack_slashfree: "cleanStack a N \<Longrightarrow> \<forall>s \<in> set N. CHR ''/'' \<notin> set s"
  using cleanStack_elems by blast

lemma normalize_render:
  "x \<noteq> [] \<Longrightarrow> normalize x = render (hd x = CHR ''/'') (last x = CHR ''/'') (normalizeSegments (hd x \<noteq> CHR ''/'') x)"
  using join_with_empty_iff [OF cleanStack_nonempty_elems [OF cleanStack_segments [of "hd x \<noteq> CHR ''/''" x]], of "''/''"]
  by (simp add: normalize_def render_def normalizeString_def Let_def)

lemma split_render:
  assumes "cleanStack a N"
  shows "split_on CHR ''/'' (render isAbs tr N) =
     (if N = [] then (if isAbs then [[], []] else if tr then [''.'', []] else [''.''])
      else (if isAbs then [[]] else []) @ N @ (if tr then [[]] else []))"
proof (cases "N = []")
  case True
  then show ?thesis by (simp add: render_def)
next
  case False
  have sp: "split_on CHR ''/'' (join_with ''/'' N) = N"
    using split_on_join [OF False cleanStack_slashfree [OF assms]] by simp
  have a: "split_on CHR ''/'' (join_with ''/'' N @ ''/'') = N @ [[]]"
    using split_on_append [of "CHR ''/''" "join_with ''/'' N" "[]"] sp by simp
  show ?thesis using False sp a by (simp add: render_def)
qed

lemma foldl_render:
  assumes "cleanStack a N"
  shows "foldl (normalizeStep b) S (split_on CHR ''/'' (render isAbs tr N)) = foldl (normalizeStep b) S N"
  unfolding split_render [OF assms]
  by (simp add: normalizeStep_skip)

lemma hd_join_with: "N \<noteq> [] \<Longrightarrow> hd N \<noteq> [] \<Longrightarrow> hd (join_with sp N) = hd (hd N)"
  by (induction sp N rule: join_with.induct) auto

lemma last_join_with:
  assumes "N \<noteq> []" and "last N \<noteq> []"
  shows "last (join_with sp N) = last (last N)"
proof (cases "butlast N = []")
  case True
  then have "N = [last N]" using assms(1) by (metis append_butlast_last_id append_Nil)
  then have "join_with sp N = last N" by (metis join_with.simps(2))
  then show ?thesis by simp
next
  case False
  have "join_with sp (butlast N @ [last N]) = join_with sp (butlast N) @ sp @ last N"
    by (rule join_with_snoc [OF False])
  then have "join_with sp N = join_with sp (butlast N) @ sp @ last N" using assms(1) by simp
  then show ?thesis using assms(2) by simp
qed

lemma render_nonempty: "cleanStack a N \<Longrightarrow> render isAbs tr N \<noteq> []"
  using join_with_empty_iff [OF cleanStack_nonempty_elems, of a N "''/''"]
  by (auto simp: render_def)

lemma hd_render:
  assumes "cleanStack a N"
  shows "(hd (render isAbs tr N) = CHR ''/'') = isAbs"
proof (cases "N = []")
  case True
  then show ?thesis by (simp add: render_def)
next
  case False
  then have h: "hd N \<in> set N" by simp
  have ne: "hd N \<noteq> []" and sf: "CHR ''/'' \<notin> set (hd N)" using cleanStack_elems [OF assms h] by simp_all
  have "hd (hd N) \<in> set (hd N)" using ne by simp
  then have "hd (hd N) \<noteq> CHR ''/''" using sf by metis
  moreover have "join_with ''/'' N \<noteq> []"
    using join_with_empty_iff [OF cleanStack_nonempty_elems [OF assms], of "''/''"] False by simp
  ultimately show ?thesis using False hd_join_with [OF False ne, of "''/''"]
    by (simp add: render_def)
qed

lemma last_render:
  assumes "cleanStack a N"
  shows "(last (render isAbs tr N) = CHR ''/'') = (tr \<or> (N = [] \<and> isAbs))"
proof (cases "N = []")
  case True
  then show ?thesis by (simp add: render_def)
next
  case False
  then have h: "last N \<in> set N" by simp
  have ne: "last N \<noteq> []" and sf: "CHR ''/'' \<notin> set (last N)" using cleanStack_elems [OF assms h] by simp_all
  have "last (last N) \<in> set (last N)" using ne by simp
  then have "last (last N) \<noteq> CHR ''/''" using sf by metis
  moreover have "join_with ''/'' N \<noteq> []"
    using join_with_empty_iff [OF cleanStack_nonempty_elems [OF assms], of "''/''"] False by simp
  ultimately show ?thesis using False last_join_with [OF False ne, of "''/''"]
    by (simp add: render_def)
qed

lemma render_tr_irrelevant: "N = [] \<and> isAbs \<Longrightarrow> render isAbs tr N = render isAbs tr' N"
  by (simp add: render_def)

lemma normalize_nonempty: "normalize x \<noteq> []"
proof (cases "x = []")
  case True
  then show ?thesis by (simp add: normalize_def)
next
  case False
  show ?thesis unfolding normalize_render [OF False] by (rule render_nonempty [OF cleanStack_segments])
qed

lemma segments_normalize:
  assumes "x \<noteq> []"
  shows "foldl (normalizeStep b) S (split_on CHR ''/'' (normalize x)) =
         foldl (normalizeStep b) S (normalizeSegments (hd x \<noteq> CHR ''/'') x)"
  unfolding normalize_render [OF assms] by (rule foldl_render [OF cleanStack_segments])

lemma hd_normalize: "x \<noteq> [] \<Longrightarrow> (hd (normalize x) = CHR ''/'') = (hd x = CHR ''/'')"
  unfolding normalize_render by (rule hd_render [OF cleanStack_segments])

lemma normalizeSegments_normalize:
  assumes "x \<noteq> []"
  shows "normalizeSegments (hd x \<noteq> CHR ''/'') (normalize x) = normalizeSegments (hd x \<noteq> CHR ''/'') x"
  unfolding normalizeSegments_def [of _ "normalize x"] segments_normalize [OF assms]
  by (rule cleanStack_refold [OF cleanStack_segments])

lemma normalize_idem: "normalize (normalize x) = normalize x"
proof (cases "x = []")
  case True
  then show ?thesis by (simp add: normalize_def normalizeString_def normalizeSegments_def normalizeStep_def)
next
  case False
  let ?a = "hd x \<noteq> CHR ''/''"
  let ?N = "normalizeSegments ?a x"
  have c: "cleanStack ?a ?N" by (rule cleanStack_segments)
  have "normalize (normalize x) =
          render (hd (normalize x) = CHR ''/'') (last (normalize x) = CHR ''/'')
            (normalizeSegments (hd (normalize x) \<noteq> CHR ''/'') (normalize x))"
    by (rule normalize_render [OF normalize_nonempty])
  also have "\<dots> = render (hd x = CHR ''/'') (last (normalize x) = CHR ''/'') ?N"
    using hd_normalize [OF False] normalizeSegments_normalize [OF False] by simp
  also have "\<dots> = render (hd x = CHR ''/'') (last x = CHR ''/'') ?N"
  proof (cases "?N = [] \<and> hd x = CHR ''/''")
    case True
    then show ?thesis by (rule render_tr_irrelevant)
  next
    case False
    have "(last (normalize x) = CHR ''/'') = (last x = CHR ''/'')"
      unfolding normalize_render [OF \<open>x \<noteq> []\<close>] last_render [OF c] using False by blast
    then show ?thesis by simp
  qed
  also have "\<dots> = normalize x" by (rule normalize_render [OF \<open>x \<noteq> []\<close>, symmetric])
  finally show ?thesis .
qed

lemma normalize_append:
  assumes "x \<noteq> []"
  shows "normalize (normalize x @ CHR ''/'' # c) = normalize (x @ CHR ''/'' # c)"
proof -
  let ?a = "hd x \<noteq> CHR ''/''"
  let ?y = "normalize x"
  have y: "?y \<noteq> []" by (rule normalize_nonempty)
  have h: "(hd (?y @ CHR ''/'' # c) = CHR ''/'') = (hd (x @ CHR ''/'' # c) = CHR ''/'')"
    using hd_normalize [OF assms] y assms by simp
  have l: "last (?y @ CHR ''/'' # c) = last (x @ CHR ''/'' # c)" by simp
  have "normalizeSegments ?a (?y @ CHR ''/'' # c) =
          foldl (normalizeStep ?a) (foldl (normalizeStep ?a) [] (split_on CHR ''/'' ?y)) (split_on CHR ''/'' c)"
    by (simp add: normalizeSegments_def split_on_append)
  also have "\<dots> = foldl (normalizeStep ?a) (normalizeSegments ?a x) (split_on CHR ''/'' c)"
    using segments_normalize [OF assms, of ?a "[]"] cleanStack_refold [OF cleanStack_segments [of ?a x]] by simp
  also have "\<dots> = normalizeSegments ?a (x @ CHR ''/'' # c)"
    by (simp add: normalizeSegments_def split_on_append)
  finally have s: "normalizeSegments ?a (?y @ CHR ''/'' # c) = normalizeSegments ?a (x @ CHR ''/'' # c)" .
  have "normalize (?y @ CHR ''/'' # c) =
      render (hd (?y @ CHR ''/'' # c) = CHR ''/'') (last (?y @ CHR ''/'' # c) = CHR ''/'')
        (normalizeSegments (hd (?y @ CHR ''/'' # c) \<noteq> CHR ''/'') (?y @ CHR ''/'' # c))"
    by (rule normalize_render) simp
  also have "\<dots> = render (hd (x @ CHR ''/'' # c) = CHR ''/'') (last (x @ CHR ''/'' # c) = CHR ''/'')
        (normalizeSegments (hd (x @ CHR ''/'' # c) \<noteq> CHR ''/'') (x @ CHR ''/'' # c))"
    unfolding h l using s assms by simp
  also have "\<dots> = normalize (x @ CHR ''/'' # c)"
    by (rule normalize_render [symmetric]) simp
  finally show ?thesis .
qed

lemma join_single: "a \<noteq> [] \<Longrightarrow> join [a] = normalize a"
  by (simp add: join_def)

lemma join_two: "join [a, b] =
   (if a = [] then (if b = [] then ''.'' else normalize b)
    else if b = [] then normalize a else normalize (a @ CHR ''/'' # b))"
  by (simp add: join_def)

lemma join_three_nonempty:
  "a \<noteq> [] \<or> b \<noteq> [] \<Longrightarrow>
     join [a, b, c] =
       (let x = (if a = [] then b else if b = [] then a else a @ CHR ''/'' # b)
        in if c = [] then normalize x else normalize (x @ CHR ''/'' # c))"
  by (auto simp: join_def)

lemma normalize_dot_prefix:
  assumes "c \<noteq> []" and "hd c \<noteq> CHR ''/''"
  shows "normalize (CHR ''.'' # CHR ''/'' # c) = normalize c"
proof -
  have "normalizeSegments True (''.'' @ CHR ''/'' # c) = normalizeSegments True c"
    unfolding normalizeSegments_def split_on_append by (simp add: normalizeStep_def)
  then have s: "normalizeSegments True (CHR ''.'' # CHR ''/'' # c) = normalizeSegments True c" by simp
  have "normalize (CHR ''.'' # CHR ''/'' # c) =
      render False (last c = CHR ''/'') (normalizeSegments True (CHR ''.'' # CHR ''/'' # c))"
    using assms normalize_render [of "CHR ''.'' # CHR ''/'' # c"] by simp
  also have "\<dots> = normalize c" using assms normalize_render [of c] s by simp
  finally show ?thesis .
qed

lemma join_assoc:
  assumes "\<not> (a = [] \<and> b = [] \<and> isAbsolute c)"
  shows "join [join [a, b], c] = join [a, b, c]"
proof (cases "a = [] \<and> b = []")
  case True
  show ?thesis
  proof (cases "c = []")
    case True
    then show ?thesis using \<open>a = [] \<and> b = []\<close>
      by (simp add: join_def normalize_def normalizeString_def normalizeSegments_def normalizeStep_def)
  next
    case False
    then have "hd c \<noteq> CHR ''/''" using assms True by (simp add: isAbsolute_def)
    then show ?thesis using True False normalize_dot_prefix [of c] by (simp add: join_def)
  qed
next
  case False
  define x where "x = (if a = [] then b else if b = [] then a else a @ CHR ''/'' # b)"
  have x: "x \<noteq> []" using False by (auto simp: x_def)
  have j2: "join [a, b] = normalize x" using False by (auto simp: join_two x_def)
  have j3: "join [a, b, c] = (if c = [] then normalize x else normalize (x @ CHR ''/'' # c))"
    using join_three_nonempty [of a b c] False by (simp add: x_def Let_def)
  show ?thesis
  proof (cases "c = []")
    case True
    then show ?thesis using j2 j3 normalize_nonempty [of x] normalize_idem [of x] by (simp add: join_two)
  next
    case False
    then show ?thesis using j2 j3 normalize_nonempty [of x] normalize_append [OF x, of c] by (simp add: join_two)
  qed
qed

lemma basename_slashfree: "CHR ''/'' \<notin> set (basename p)"
  by (auto simp: basename_def dest: set_takeWhileD)

lemma basename_not_absolute: "\<not> isAbsolute (basename p)"
  using basename_slashfree [of p] by (cases "basename p") (auto simp: isAbsolute_def)

lemma isAbsolute_normalize: "isAbsolute x \<Longrightarrow> isAbsolute (normalize x)"
  using hd_normalize [of x] normalize_nonempty [of x] by (auto simp: isAbsolute_def)

lemma join_with_hd: "N \<noteq> [] \<Longrightarrow> hd N \<noteq> [] \<Longrightarrow> join_with sp N \<noteq> [] \<and> hd (join_with sp N) = hd (hd N)"
  by (induction sp N rule: join_with.induct) auto

lemma isAbsolute_join: "isAbsolute a \<Longrightarrow> isAbsolute (join (a # rest))"
proof -
  assume a: "isAbsolute a"
  let ?f = "filter (\<lambda>a. a \<noteq> []) (a # rest)"
  have f: "?f = a # filter (\<lambda>a. a \<noteq> []) rest" using a by (simp add: isAbsolute_def)
  have "join_with ''/'' ?f \<noteq> [] \<and> hd (join_with ''/'' ?f) = hd (hd ?f)"
    by (rule join_with_hd) (use a f in \<open>simp_all add: isAbsolute_def\<close>)
  then have "isAbsolute (join_with ''/'' ?f)" using a f by (simp add: isAbsolute_def)
  then have "isAbsolute (normalize (join_with ''/'' ?f))" by (rule isAbsolute_normalize)
  then show ?thesis using f by (simp add: join_def Let_def)
qed

lemma dropWhile_slashes:
  "set T \<subseteq> {CHR ''/''} \<Longrightarrow> s \<noteq> [] \<Longrightarrow> CHR ''/'' \<notin> set s \<Longrightarrow>
     dropWhile (\<lambda>c. c = CHR ''/'') (rev T @ rev s @ Y) = rev s @ Y"
proof -
  assume T: "set T \<subseteq> {CHR ''/''}" and s: "s \<noteq> []" and f: "CHR ''/'' \<notin> set s"
  have "hd (rev s) \<in> set s" using s by (metis hd_in_set rev_is_Nil_conv set_rev)
  then have "hd (rev s @ Y) \<noteq> CHR ''/''" using f s by auto
  moreover have "rev s @ Y \<noteq> []" using s by simp
  ultimately have "dropWhile (\<lambda>c. c = CHR ''/'') (rev s @ Y) = rev s @ Y"
    by (simp add: dropWhile_eq_self_iff)
  moreover have "\<forall>c \<in> set (rev T). c = CHR ''/''" using T by auto
  ultimately show ?thesis by (simp add: dropWhile_append)
qed

lemma dropWhile_component:
  "CHR ''/'' \<notin> set s \<Longrightarrow> dropWhile (\<lambda>c. c \<noteq> CHR ''/'') (rev s @ CHR ''/'' # Y) = CHR ''/'' # Y"
  by (simp add: dropWhile_append)

lemma dropWhile_component_only:
  "CHR ''/'' \<notin> set s \<Longrightarrow> dropWhile (\<lambda>c. c \<noteq> CHR ''/'') (rev s) = []"
  by auto

lemma dirname_prefix:
  assumes X: "X \<noteq> []" "X \<noteq> ''/''" and s: "s \<noteq> []" "CHR ''/'' \<notin> set s" and T: "set T \<subseteq> {CHR ''/''}"
  shows "dirname (X @ CHR ''/'' # s @ T) = X"
proof -
  obtain x0 X' where XX: "X = x0 # X'" using X(1) by (cases X) auto
  have tl: "rev (tl (X @ CHR ''/'' # s @ T)) = rev T @ rev s @ (CHR ''/'' # rev X')"
    using XX by simp
  have r: "dropWhile (\<lambda>c. c = CHR ''/'') (rev (tl (X @ CHR ''/'' # s @ T))) = rev s @ (CHR ''/'' # rev X')"
    unfolding tl by (rule dropWhile_slashes [OF T s])
  have r': "dropWhile (\<lambda>c. c \<noteq> CHR ''/'') (rev s @ (CHR ''/'' # rev X')) = CHR ''/'' # rev X'"
    by (rule dropWhile_component [OF s(2)])
  have "\<not> (x0 = CHR ''/'' \<and> X' = [])" using X(2) XX by simp
  then show ?thesis unfolding dirname_def Let_def r r' using XX by auto
qed

lemma dirname_single:
  assumes s: "s \<noteq> []" "CHR ''/'' \<notin> set s" and T: "set T \<subseteq> {CHR ''/''}"
  shows "dirname (s @ T) = ''.''"
proof -
  obtain s0 s' where ss: "s = s0 # s'" using s(1) by (cases s) auto
  have f: "CHR ''/'' \<notin> set s'" "s0 \<noteq> CHR ''/''" using s(2) ss by auto
  have "dropWhile (\<lambda>c. c = CHR ''/'') (rev T @ rev s') = rev s'"
  proof (cases "s' = []")
    case True
    have "\<forall>c \<in> set (rev T). c = CHR ''/''" using T by auto
    then show ?thesis using True by simp
  next
    case False
    show ?thesis using dropWhile_slashes [OF T False f(1), of "[]"] by simp
  qed
  then have r: "dropWhile (\<lambda>c. c = CHR ''/'') (rev (tl (s @ T))) = rev s'" using ss by simp
  show ?thesis unfolding dirname_def Let_def r using ss f by simp
qed

lemma dirname_rooted_single:
  assumes s: "s \<noteq> []" "CHR ''/'' \<notin> set s" and T: "set T \<subseteq> {CHR ''/''}"
  shows "dirname (CHR ''/'' # s @ T) = ''/''"
proof -
  have r: "dropWhile (\<lambda>c. c = CHR ''/'') (rev (tl (CHR ''/'' # s @ T))) = rev s"
    using dropWhile_slashes [OF T s, of "[]"] by simp
  show ?thesis unfolding dirname_def Let_def r using s by simp
qed

lemma cleanStack_snoc_name: "cleanStack a N \<Longrightarrow> isName n \<Longrightarrow> cleanStack a (N @ [n])"
proof -
  assume "cleanStack a N" and n: "isName n"
  then obtain k ns where S: "N = replicate k ''..'' @ ns" and ns: "\<forall>n \<in> set ns. isName n"
    and k: "\<not> a \<longrightarrow> k = 0" unfolding cleanStack_def by blast
  have 1: "N @ [n] = replicate k ''..'' @ (ns @ [n])" using S by simp
  have 2: "\<forall>m \<in> set (ns @ [n]). isName m" using ns n by simp
  show ?thesis by (rule cleanStackI [OF 1 2 k])
qed

lemma cleanStack_butlast': "cleanStack a N \<Longrightarrow> cleanStack a (butlast N)"
proof (cases "N = []")
  case True
  then show ?thesis by (simp add: cleanStack_Nil)
next
  case False
  assume "cleanStack a N"
  then have "cleanStack a (butlast N @ [last N])" using False by simp
  then show ?thesis by (rule cleanStack_butlast)
qed

lemma dirname_render_snoc:
  assumes "cleanStack a (N @ [s])"
  shows "dirname (render isAbs tr (N @ [s])) = render isAbs False N"
proof -
  have el: "s \<noteq> []" "CHR ''/'' \<notin> set s" using cleanStack_elems [OF assms, of s] by simp_all
  have T: "set (if tr then ''/'' else []) \<subseteq> {CHR ''/''}" by auto
  show ?thesis
  proof (cases "N = []")
    case True
    show ?thesis
    proof (cases isAbs)
      case True
      then show ?thesis using \<open>N = []\<close> dirname_rooted_single [OF el T] by (simp add: render_def)
    next
      case False
      then show ?thesis using \<open>N = []\<close> dirname_single [OF el T] by (simp add: render_def)
    qed
  next
    case False
    let ?X = "(if isAbs then ''/'' else []) @ join_with ''/'' N"
    have jn: "join_with ''/'' N \<noteq> []"
      using join_with_empty_iff [OF cleanStack_nonempty_elems [OF cleanStack_butlast [OF assms]], of "''/''"] False
      by simp
    have "hd (join_with ''/'' N) \<noteq> CHR ''/''"
      using hd_render [OF cleanStack_butlast [OF assms], of False False] False by (simp add: render_def)
    then have "join_with ''/'' N \<noteq> ''/''" by auto
    then have X: "?X \<noteq> []" "?X \<noteq> ''/''" using jn by auto
    have "render isAbs tr (N @ [s]) = ?X @ CHR ''/'' # s @ (if tr then ''/'' else [])"
      using join_with_snoc [OF False, of "''/''" s] by (simp add: render_def)
    then have "dirname (render isAbs tr (N @ [s])) = ?X"
      using dirname_prefix [OF X el T] by simp
    then show ?thesis using False by (simp add: render_def)
  qed
qed

lemma dirname_render_Nil: "dirname (render isAbs tr []) = render isAbs False []"
  by (simp add: render_def dirname_def)

lemma dirname_render:
  assumes "cleanStack a N"
  shows "dirname (render isAbs tr N) = render isAbs False (butlast N)"
proof (cases "N = []")
  case True
  then show ?thesis by (simp add: dirname_render_Nil)
next
  case False
  then have e: "N = butlast N @ [last N]" by simp
  have "cleanStack a (butlast N @ [last N])" using assms e by simp
  from dirname_render_snoc [OF this, of isAbs tr] e show ?thesis by simp
qed

lemma isName_split: "isName n \<Longrightarrow> split_on CHR ''/'' n = [n]"
  by (simp add: isName_def split_on_single)

lemma normalize_render_name:
  assumes c: "cleanStack (\<not> isAbs) N" and n: "isName n"
  shows "normalize (render isAbs False N @ CHR ''/'' # n) = render isAbs False (N @ [n])"
proof -
  let ?d = "render isAbs False N"
  let ?x = "?d @ CHR ''/'' # n"
  have d: "?d \<noteq> []" by (rule render_nonempty [OF c])
  have n': "n \<noteq> []" "CHR ''/'' \<notin> set n" using n by (simp_all add: isName_def)
  have h: "(hd ?x = CHR ''/'') = isAbs" using hd_render [OF c, of isAbs False] d by simp
  have "last n \<in> set n" using n' by simp
  then have "last n \<noteq> CHR ''/''" using n'(2) by metis
  then have l: "last ?x \<noteq> CHR ''/''" using n'(1) by simp
  have "normalizeSegments (\<not> isAbs) ?x =
      foldl (normalizeStep (\<not> isAbs)) (foldl (normalizeStep (\<not> isAbs)) [] (split_on CHR ''/'' ?d)) [n]"
    by (simp add: normalizeSegments_def split_on_append isName_split [OF n])
  also have "\<dots> = N @ [n]"
    using foldl_render [OF c, of "\<not> isAbs" "[]" isAbs False] cleanStack_refold [OF c] normalizeStep_name [OF n]
    by simp
  finally have s: "normalizeSegments (\<not> isAbs) ?x = N @ [n]" .
  have "normalize ?x = render (hd ?x = CHR ''/'') (last ?x = CHR ''/'') (normalizeSegments (hd ?x \<noteq> CHR ''/'') ?x)"
    by (rule normalize_render) simp
  then show ?thesis using h l s by simp
qed

lemma dirname_join_name:
  assumes p: "normalize p = p" and n: "isName n"
  shows "dirname (join [dirname p, n]) = dirname p"
proof -
  have pne: "p \<noteq> []" using normalize_nonempty [of p] p by simp
  let ?abs = "hd p = CHR ''/''"
  let ?N = "normalizeSegments (\<not> ?abs) p"
  have c: "cleanStack (\<not> ?abs) ?N" by (rule cleanStack_segments)
  have cb: "cleanStack (\<not> ?abs) (butlast ?N)" by (rule cleanStack_butlast' [OF c])
  have "p = render ?abs (last p = CHR ''/'') ?N" using normalize_render [OF pne] p by simp
  then have "dirname p = dirname (render ?abs (last p = CHR ''/'') ?N)" by simp
  then have d: "dirname p = render ?abs False (butlast ?N)" using dirname_render [OF c] by simp
  have dne: "dirname p \<noteq> []" unfolding d by (rule render_nonempty [OF cb])
  have nne: "n \<noteq> []" using n by (simp add: isName_def)
  have "join [dirname p, n] = normalize (dirname p @ CHR ''/'' # n)" using dne nne by (simp add: join_two)
  also have "\<dots> = render ?abs False (butlast ?N @ [n])" unfolding d by (rule normalize_render_name [OF cb n])
  finally have "dirname (join [dirname p, n]) = dirname (render ?abs False (butlast ?N @ [n]))" by simp
  also have "\<dots> = render ?abs False (butlast ?N)"
    by (rule dirname_render_snoc [OF cleanStack_snoc_name [OF cb n]])
  finally show ?thesis using d by simp
qed

lemma cleanStack_False_names: "cleanStack False S \<Longrightarrow> \<forall>s \<in> set S. isName s"
  unfolding cleanStack_def by auto

lemma names_cleanStack: "\<forall>s \<in> set S. isName s \<Longrightarrow> cleanStack a S"
  using cleanStackI [of S 0 S a] by simp

lemma foldl_names: "\<forall>s \<in> set rs. isName s \<Longrightarrow> foldl (normalizeStep a) S rs = S @ rs"
  by (induction rs arbitrary: S) (simp_all add: normalizeStep_name)

lemma refold_relative:
  assumes "\<forall>s \<in> set xs. CHR ''/'' \<notin> set s"
  shows "foldl (normalizeStep b) P (foldl (normalizeStep True) [] xs) = foldl (normalizeStep b) P xs"
  using assms
proof (induction xs rule: rev_induct)
  case Nil
  then show ?case by simp
next
  case (snoc x xs)
  let ?M = "foldl (normalizeStep True) [] xs"
  have sf: "\<forall>s \<in> set xs. CHR ''/'' \<notin> set s" and xf: "CHR ''/'' \<notin> set x" using snoc.prems by simp_all
  have ih: "foldl (normalizeStep b) P ?M = foldl (normalizeStep b) P xs" using snoc.IH [OF sf] .
  have cM: "cleanStack True ?M" by (rule cleanStack_foldl [OF cleanStack_Nil sf])
  consider "x = [] \<or> x = ''.''" | "x = ''..''" | "isName x" using xf by (auto simp: isName_def)
  then show ?case
  proof cases
    case 1
    then show ?thesis using ih by (simp add: normalizeStep_skip)
  next
    case 3
    then show ?thesis using ih by (simp add: normalizeStep_name)
  next
    case 2
    show ?thesis
    proof (cases "?M \<noteq> [] \<and> last ?M \<noteq> ''..''")
      case True
      then have e: "?M = butlast ?M @ [last ?M]" by simp
      have "last ?M \<in> set ?M" using True by simp
      then have "last ?M \<noteq> [] \<and> last ?M \<noteq> ''.'' \<and> CHR ''/'' \<notin> set (last ?M)"
        using cleanStack_elems [OF cM] by blast
      then have nm: "isName (last ?M)" using True by (simp add: isName_def)
      have "foldl (normalizeStep b) P ?M = foldl (normalizeStep b) P (butlast ?M @ [last ?M])"
        using e by simp
      also have "\<dots> = foldl (normalizeStep b) P (butlast ?M) @ [last ?M]"
        by (simp add: normalizeStep_name [OF nm])
      finally have f: "foldl (normalizeStep b) P ?M = foldl (normalizeStep b) P (butlast ?M) @ [last ?M]" .
      have l: "foldl (normalizeStep True) [] (xs @ [x]) = butlast ?M"
        using 2 True by (simp add: normalizeStep_def)
      have "foldl (normalizeStep b) P (xs @ [x]) = normalizeStep b (foldl (normalizeStep b) P ?M) ''..''"
        using ih 2 by simp
      also have "\<dots> = foldl (normalizeStep b) P (butlast ?M)"
        unfolding f using nm by (simp add: normalizeStep_def isName_def)
      finally show ?thesis using l by simp
    next
      case False
      then have l: "foldl (normalizeStep True) [] (xs @ [x]) = ?M @ [''..'']"
        using 2 by (auto simp: normalizeStep_def)
      show ?thesis unfolding l using ih 2 by simp
    qed
  qed
qed

lemma normalizeSegments_trailing: "normalizeSegments a (y @ ''/'') = normalizeSegments a y"
  using split_on_append [of "CHR ''/''" y "[]"] by (simp add: normalizeSegments_def normalizeStep_skip)

lemma resolve_absolute:
  assumes "isAbsolute pcwd"
  shows "resolve pcwd y = CHR ''/'' # join_with ''/'' (resolveSegments pcwd y)"
proof (cases "isAbsolute y")
  case True
  then have "y \<noteq> []" by (auto simp: isAbsolute_def)
  then show ?thesis using True normalizeSegments_trailing [of False y]
    by (simp add: resolve_def resolveSegments_def normalizeString_def Let_def)
next
  case False
  have p: "pcwd \<noteq> []" using assms by (auto simp: isAbsolute_def)
  show ?thesis
  proof (cases "y = []")
    case True
    then show ?thesis using False p assms normalizeSegments_trailing [of False pcwd]
      by (simp add: resolve_def resolveSegments_def normalizeString_def Let_def normalizeStep_skip)
  next
    case ne: False
    have "normalizeSegments False (pcwd @ CHR ''/'' # y @ ''/'') =
          foldl (normalizeStep False) (normalizeSegments False pcwd) (split_on CHR ''/'' y)"
      using split_on_append [of "CHR ''/''" pcwd "y @ ''/''"] split_on_append [of "CHR ''/''" y "[]"]
      by (simp add: normalizeSegments_def normalizeStep_skip)
    then show ?thesis using False p assms ne
      by (simp add: resolve_def resolveSegments_def normalizeString_def Let_def)
  qed
qed

lemma cleanStack_resolveSegments: "cleanStack False (resolveSegments pcwd y)"
  unfolding resolveSegments_def normalizeSegments_def
  by (auto intro!: cleanStack_foldl cleanStack_Nil dest: split_on_free)

lemma pathSegments_rooted:
  assumes "cleanStack False S"
  shows "pathSegments (CHR ''/'' # join_with ''/'' S) = S"
proof -
  have "CHR ''/'' # join_with ''/'' S = render True False S \<or> S = []"
    by (auto simp: render_def)
  then show ?thesis
  proof
    assume e: "CHR ''/'' # join_with ''/'' S = render True False S"
    have "\<forall>s \<in> set S. s \<noteq> []" by (rule cleanStack_nonempty_elems [OF assms])
    then have "filter (\<lambda>s. s \<noteq> []) S = S" by (simp add: filter_id_conv)
    then show ?thesis unfolding pathSegments_def e split_render [OF assms] by simp
  next
    assume "S = []"
    then show ?thesis by (simp add: pathSegments_def)
  qed
qed

lemma pathSegments_resolve:
  "isAbsolute pcwd \<Longrightarrow> pathSegments (resolve pcwd y) = resolveSegments pcwd y"
  by (simp add: resolve_absolute pathSegments_rooted [OF cleanStack_resolveSegments])

lemma resolveSegments_render:
  assumes "y \<noteq> []"
  shows "resolveSegments pcwd (render (hd y = CHR ''/'') tr (normalizeSegments (hd y \<noteq> CHR ''/'') y)) =
         resolveSegments pcwd y"
proof -
  let ?abs = "hd y = CHR ''/''"
  let ?N = "normalizeSegments (\<not> ?abs) y"
  let ?r = "render ?abs tr ?N"
  have c: "cleanStack (\<not> ?abs) ?N" by (rule cleanStack_segments)
  have ra: "isAbsolute ?r = ?abs" using hd_render [OF c, of ?abs tr] render_nonempty [OF c, of ?abs tr]
    by (simp add: isAbsolute_def)
  have ya: "isAbsolute y = ?abs" using assms by (simp add: isAbsolute_def)
  show ?thesis
  proof (cases ?abs)
    case True
    have "normalizeSegments False ?r = foldl (normalizeStep False) [] ?N"
      unfolding normalizeSegments_def [of False ?r] by (rule foldl_render [OF c])
    also have "\<dots> = ?N" using cleanStack_refold [OF c] True by simp
    finally show ?thesis using True ra ya by (simp add: resolveSegments_def)
  next
    case False
    let ?P = "normalizeSegments False pcwd"
    have "foldl (normalizeStep False) ?P (split_on CHR ''/'' ?r) = foldl (normalizeStep False) ?P ?N"
      by (rule foldl_render [OF c])
    also have "\<dots> = foldl (normalizeStep False) ?P (foldl (normalizeStep True) [] (split_on CHR ''/'' y))"
      using False by (simp add: normalizeSegments_def)
    also have "\<dots> = foldl (normalizeStep False) ?P (split_on CHR ''/'' y)"
      by (rule refold_relative) (auto dest: split_on_free)
    finally show ?thesis using False ra ya by (simp add: resolveSegments_def)
  qed
qed

lemma resolveSegments_normalize: "y \<noteq> [] \<Longrightarrow> resolveSegments pcwd (normalize y) = resolveSegments pcwd y"
  unfolding normalize_render by (rule resolveSegments_render)

lemma join_with_names_split:
  assumes "rs \<noteq> []" and "\<forall>s \<in> set rs. isName s"
  shows "split_on CHR ''/'' (join_with ''/'' rs) = rs"
  using split_on_join [OF assms(1), of "CHR ''/''"] assms(2) by (simp add: isName_def)

lemma resolveSegments_append:
  assumes "d \<noteq> []" and "rs \<noteq> []" and "\<forall>s \<in> set rs. isName s"
  shows "resolveSegments pcwd (d @ CHR ''/'' # join_with ''/'' rs) = resolveSegments pcwd d @ rs"
proof -
  have a: "isAbsolute (d @ CHR ''/'' # join_with ''/'' rs) = isAbsolute d"
    using assms(1) by (simp add: isAbsolute_def)
  have s: "split_on CHR ''/'' (d @ CHR ''/'' # join_with ''/'' rs) = split_on CHR ''/'' d @ rs"
    using split_on_append [of "CHR ''/''" d "join_with ''/'' rs"] join_with_names_split [OF assms(2,3)]
    by simp
  show ?thesis unfolding resolveSegments_def a normalizeSegments_def s
    by (simp add: foldl_names [OF assms(3)])
qed

lemma join_with_names_nonempty:
  assumes "rs \<noteq> []" and "\<forall>s \<in> set rs. isName s"
  shows "join_with ''/'' rs \<noteq> []"
proof -
  have "\<forall>s \<in> set rs. s \<noteq> []" using assms(2) by (simp add: isName_def)
  from join_with_empty_iff [OF this, of "''/''"] assms(1) show ?thesis by simp
qed

lemma commonPrefix_append: "commonPrefix fs (fs @ rs) = length fs"
  by (induction fs) simp_all

lemma relative_under:
  assumes pc: "isAbsolute pcwd" and d: "d \<noteq> []" and rs: "rs \<noteq> []" "\<forall>s \<in> set rs. isName s"
  shows "relative pcwd d (join [d, join_with ''/'' rs]) = join_with ''/'' rs"
proof -
  let ?r = "join_with ''/'' rs"
  let ?y = "join [d, ?r]"
  have r: "?r \<noteq> []" by (rule join_with_names_nonempty [OF rs])
  have y: "?y = normalize (d @ CHR ''/'' # ?r)" using d r by (simp add: join_two)
  have seg: "resolveSegments pcwd ?y = resolveSegments pcwd d @ rs"
    unfolding y using resolveSegments_normalize [of "d @ CHR ''/'' # ?r" pcwd]
      resolveSegments_append [OF d rs, of pcwd] by simp
  have ne: "resolveSegments pcwd d \<noteq> resolveSegments pcwd ?y" using seg rs(1) by simp
  then have 1: "d \<noteq> ?y" by auto
  have "pathSegments (resolve pcwd d) \<noteq> pathSegments (resolve pcwd ?y)"
    using ne by (simp add: pathSegments_resolve [OF pc])
  then have 2: "resolve pcwd d \<noteq> resolve pcwd ?y" by auto
  show ?thesis
    using 1 2 seg
    by (simp add: relative_def Let_def pathSegments_resolve [OF pc] commonPrefix_append del: join_with.simps)
qed

lemma relative_below:
  assumes pc: "isAbsolute pcwd" and b: "isBelow pcwd base p"
  shows "\<exists>rs. rs \<noteq> [] \<and> (\<forall>s \<in> set rs. isName s) \<and> relative pcwd base p = join_with ''/'' rs"
proof -
  let ?fs = "resolveSegments pcwd base"
  let ?ts = "resolveSegments pcwd p"
  let ?rs = "drop (length ?fs) ?ts"
  from b have l: "length ?fs < length ?ts" and t: "take (length ?fs) ?ts = ?fs"
    by (simp_all add: isBelow_def Let_def pathSegments_resolve [OF pc])
  have ts: "?ts = ?fs @ ?rs" using t by (metis append_take_drop_id)
  have ne: "?fs \<noteq> ?ts" using l by auto
  then have 1: "base \<noteq> p" by auto
  have "pathSegments (resolve pcwd base) \<noteq> pathSegments (resolve pcwd p)"
    using ne by (simp add: pathSegments_resolve [OF pc])
  then have 2: "resolve pcwd base \<noteq> resolve pcwd p" by auto
  have cp: "commonPrefix ?fs ?ts = length ?fs" using ts commonPrefix_append [of ?fs ?rs] by simp
  have "set ?rs \<subseteq> set ?ts" by (rule set_drop_subset)
  then have nm: "\<forall>s \<in> set ?rs. isName s"
    using cleanStack_False_names [OF cleanStack_resolveSegments [of pcwd p]] by blast
  have rne: "?rs \<noteq> []" using l by simp
  have "relative pcwd base p = join_with ''/'' ?rs"
    using 1 2 cp by (simp add: relative_def Let_def pathSegments_resolve [OF pc] del: join_with.simps)
  then show ?thesis using rne nm by blast
qed

lemma normalize_snoc_name:
  assumes x: "x \<noteq> []" and n: "isName n"
  shows "normalize (x @ CHR ''/'' # n) =
         render (hd x = CHR ''/'') False (normalizeSegments (hd x \<noteq> CHR ''/'') x @ [n])"
proof -
  let ?x = "x @ CHR ''/'' # n"
  have n': "n \<noteq> []" "CHR ''/'' \<notin> set n" using n by (simp_all add: isName_def)
  have h: "hd ?x = hd x" using x by simp
  have "last n \<in> set n" using n' by simp
  then have "last n \<noteq> CHR ''/''" using n'(2) by metis
  then have l: "last ?x \<noteq> CHR ''/''" using n'(1) by simp
  have s: "normalizeSegments a ?x = normalizeSegments a x @ [n]" for a
    by (simp add: normalizeSegments_def split_on_append isName_split [OF n] normalizeStep_name [OF n])
  have "normalize ?x = render (hd ?x = CHR ''/'') (last ?x = CHR ''/'') (normalizeSegments (hd ?x \<noteq> CHR ''/'') ?x)"
    by (rule normalize_render) simp
  then show ?thesis using h l s by simp
qed

lemma resolve_dirname_join:
  assumes pc: "isAbsolute pcwd" and x: "x \<noteq> []" and n: "isName n"
  shows "resolve pcwd (dirname (join [x, n])) = resolve pcwd x"
proof -
  let ?abs = "hd x = CHR ''/''"
  let ?N = "normalizeSegments (\<not> ?abs) x"
  have nne: "n \<noteq> []" using n by (simp add: isName_def)
  have "join [x, n] = render ?abs False (?N @ [n])"
    using x nne normalize_snoc_name [OF x n] by (simp add: join_two)
  then have "dirname (join [x, n]) = render ?abs False ?N"
    using dirname_render_snoc [OF cleanStack_snoc_name [OF cleanStack_segments n], of ?abs False "\<not> ?abs" x]
    by simp
  then have "resolveSegments pcwd (dirname (join [x, n])) = resolveSegments pcwd x"
    using resolveSegments_render [OF x, of pcwd False] by simp
  then show ?thesis by (simp add: resolve_absolute [OF pc])
qed

lemma join_nonempty: "join args \<noteq> []"
  by (simp add: join_def Let_def normalize_nonempty)

lemma destinationRoot_nonempty: "destinationRoot opts d \<noteq> []"
  by (auto simp: destinationRoot_def join_nonempty isAbsolute_def)

subsection \<open>Renaming\<close>

lemma dirname_nonempty: "dirname p \<noteq> []"
proof -
  define r where "r = dropWhile (\<lambda>c. c \<noteq> CHR ''/'') (dropWhile (\<lambda>c. c = CHR ''/'') (rev (tl p)))"
  have "dirname p =
     (if p = [] then ''.''
      else if r = [] then (if hd p = CHR ''/'' then ''/'' else ''.'')
      else if hd p = CHR ''/'' \<and> length r = 1 then ''//''
      else hd p # rev (tl r))"
    unfolding dirname_def Let_def r_def ..
  then show ?thesis by (simp split: if_splits)
qed

lemma renameFile_simps:
  "renameFile p NoRename = p"
  "renameFile p (StaticName s) = join [dirname p, s]"
  "renameFile p (Computed f) = join [dirname p, f (basenameExt p (extname p)) @ extname p]"
  by (simp_all add: renameFile_def Let_def)

text \<open>
  Claim C2, as amended. Without a rename the path is returned as it is. For a static
  name, or a computed name with the extension reattached, that is a file name proper,
  the directory portion of the renamed path is the directory of the path: the two
  resolve to the same absolute path, and they are the same string when the path is
  normalized (every path \<open>join\<close> returns is, so every destination path that reaches
  \<open>renameFile\<close>).
\<close>

theorem rename_keeps_directory:
  "renameFile p NoRename = p \<and>
   (isName s \<and> isAbsolute pcwd \<longrightarrow>
      resolve pcwd (dirname (renameFile p (StaticName s))) = resolve pcwd (dirname p)) \<and>
   (isName (f (basenameExt p (extname p)) @ extname p) \<and> isAbsolute pcwd \<longrightarrow>
      resolve pcwd (dirname (renameFile p (Computed f))) = resolve pcwd (dirname p)) \<and>
   (isName s \<and> normalize p = p \<longrightarrow> dirname (renameFile p (StaticName s)) = dirname p) \<and>
   (isName (f (basenameExt p (extname p)) @ extname p) \<and> normalize p = p \<longrightarrow>
      dirname (renameFile p (Computed f)) = dirname p)"
proof -
  have r: "resolve pcwd (dirname (join [dirname p, n])) = resolve pcwd (dirname p)"
    if "isName n" and "isAbsolute pcwd" for n
    by (rule resolve_dirname_join [OF that(2) dirname_nonempty that(1)])
  have d: "dirname (join [dirname p, n]) = dirname p" if "isName n" and "normalize p = p" for n
    by (rule dirname_join_name [OF that(2) that(1)])
  show ?thesis unfolding renameFile_simps using r d by blast
qed

theorem rename_keeps_directory_witness:
  "isName ''x.txt'' \<and> isAbsolute ''/w'' \<and>
   isName ((\<lambda>n. ''copy-'' @ n) (basenameExt ''/w/out/sub/a.b.txt'' (extname ''/w/out/sub/a.b.txt''))
            @ extname ''/w/out/sub/a.b.txt'') \<and>
   normalize ''/w/out/sub/a.b.txt'' = ''/w/out/sub/a.b.txt'' \<and>
   renameFile ''/w/out/sub/a.b.txt'' (StaticName ''x.txt'') = ''/w/out/sub/x.txt'' \<and>
   renameFile ''/w/out/sub/a.b.txt'' (Computed (\<lambda>n. ''copy-'' @ n)) = ''/w/out/sub/copy-a.b.txt'' \<and>
   dirname (renameFile ''/w/out/sub/a.b.txt'' (StaticName ''x.txt'')) = dirname ''/w/out/sub/a.b.txt'' \<and>
   dirname (renameFile ''/w/out/sub/a.b.txt'' (Computed (\<lambda>n. ''copy-'' @ n))) = dirname ''/w/out/sub/a.b.txt'' \<and>
   resolve ''/w'' (dirname (renameFile ''a//b.txt'' (StaticName ''x.txt''))) = resolve ''/w'' (dirname ''a//b.txt'')"
proof -
  let ?p = "''/w/out/sub/a.b.txt''"
  let ?f = "\<lambda>n. ''copy-'' @ n"
  have 1: "normalize ?p = ?p" by code_simp
  have 2: "isName ''x.txt''" by code_simp
  have 3: "isName (?f (basenameExt ?p (extname ?p)) @ extname ?p)" by code_simp
  have 4: "renameFile ?p (StaticName ''x.txt'') = ''/w/out/sub/x.txt''" by code_simp
  have 5: "renameFile ?p (Computed ?f) = ''/w/out/sub/copy-a.b.txt''" by code_simp
  have 6: "isAbsolute ''/w''" by code_simp
  from rename_keeps_directory [of ?p "''x.txt''" "''/w''" ?f] 1 2 3
  have a: "dirname (renameFile ?p (StaticName ''x.txt'')) = dirname ?p \<and>
           dirname (renameFile ?p (Computed ?f)) = dirname ?p"
    by blast
  from rename_keeps_directory [of "''a//b.txt''" "''x.txt''" "''/w''" ?f] 2 6
  have b: "resolve ''/w'' (dirname (renameFile ''a//b.txt'' (StaticName ''x.txt''))) =
           resolve ''/w'' (dirname ''a//b.txt'')"
    by blast
  show ?thesis using 1 2 3 4 5 6 a b by blast
qed

text \<open>
  Claim C2 as stated, for every rename and every path, fails: \<open>join(dir, rename)\<close>
  normalizes whatever the rename contributes. The static name \<open>sub/x.txt\<close> moves
  \<open>out/a.txt\<close> to the directory \<open>out/sub\<close>; a function returning \<open>../\<close> before
  the name moves it to the parent directory. For the path \<open>a//b.txt\<close>, which is not
  normalized, \<open>dirname\<close> is the string \<open>a/\<close> before and \<open>a\<close> after the rename to
  \<open>x.txt\<close>.
\<close>

theorem rename_any_spec_counterexample:
  "dirname (renameFile ''out/a.txt'' (StaticName ''sub/x.txt'')) \<noteq> dirname ''out/a.txt'' \<and>
   dirname (renameFile ''out/a.txt'' (Computed (\<lambda>n. ''../'' @ n))) \<noteq> dirname ''out/a.txt'' \<and>
   dirname (renameFile ''a//b.txt'' (StaticName ''x.txt'')) \<noteq> dirname ''a//b.txt''"
  by code_simp

subsection \<open>The three destination policies\<close>

text \<open>
  Claim C1. For an entry of a wildcarded pattern, when \<open>flat\<close> is false, the destination
  path is \<open>join(destination, relative(pattern.normalizedPath, entry.path))\<close>. Hence,
  when the source lies below the pattern's base directory, the path of the output
  relative to the destination is the path of the source relative to that base directory.
\<close>

theorem structured_destination:
  assumes "hasMagic (pattern e)" and "\<not> flat opts"
  shows "preprocessDestinationPath pcwd e d opts =
           join [d, relative pcwd (normalizedPath (pattern e)) (path e)] \<and>
         (isAbsolute pcwd \<and> d \<noteq> [] \<and> isBelow pcwd (normalizedPath (pattern e)) (path e) \<longrightarrow>
            relative pcwd d (preprocessDestinationPath pcwd e d opts) =
            relative pcwd (normalizedPath (pattern e)) (path e))"
proof -
  have eq: "preprocessDestinationPath pcwd e d opts =
           join [d, relative pcwd (normalizedPath (pattern e)) (path e)]"
    using assms by (simp add: preprocessDestinationPath_def)
  have "relative pcwd d (join [d, relative pcwd (normalizedPath (pattern e)) (path e)]) =
            relative pcwd (normalizedPath (pattern e)) (path e)"
    if pc: "isAbsolute pcwd" and d: "d \<noteq> []" and b: "isBelow pcwd (normalizedPath (pattern e)) (path e)"
  proof -
    from relative_below [OF pc b] obtain rs where rs: "rs \<noteq> []" "\<forall>s \<in> set rs. isName s"
      and r: "relative pcwd (normalizedPath (pattern e)) (path e) = join_with ''/'' rs" by blast
    show ?thesis unfolding r by (rule relative_under [OF pc d rs])
  qed
  then show ?thesis using eq by simp
qed

theorem structured_destination_witness:
  "hasMagic (pattern (fixtureEntry ''src/**/*.md'' ''/w/src/y/z.md'')) \<and>
   \<not> flat (mergeOptions fixtureWorld noOptions) \<and>
   isAbsolute ''/w'' \<and>
   isBelow ''/w'' (normalizedPath (pattern (fixtureEntry ''src/**/*.md'' ''/w/src/y/z.md'')))
     (path (fixtureEntry ''src/**/*.md'' ''/w/src/y/z.md'')) \<and>
   relative ''/w'' ''/w/src'' ''/w/src/y/z.md'' = ''y/z.md'' \<and>
   preprocessDestinationPath ''/w'' (fixtureEntry ''src/**/*.md'' ''/w/src/y/z.md'') ''out''
     (mergeOptions fixtureWorld noOptions) = ''out/y/z.md'' \<and>
   relative ''/w'' ''out''
     (preprocessDestinationPath ''/w'' (fixtureEntry ''src/**/*.md'' ''/w/src/y/z.md'') ''out''
        (mergeOptions fixtureWorld noOptions)) = ''y/z.md''"
proof -
  let ?e = "fixtureEntry ''src/**/*.md'' ''/w/src/y/z.md''"
  let ?o = "mergeOptions fixtureWorld noOptions"
  have 1: "hasMagic (pattern ?e)" by code_simp
  have 2: "\<not> flat ?o" by code_simp
  have 3: "isAbsolute ''/w''" by code_simp
  have 4: "isBelow ''/w'' (normalizedPath (pattern ?e)) (path ?e)" by code_simp
  have 5: "relative ''/w'' (normalizedPath (pattern ?e)) (path ?e) = ''y/z.md''" by code_simp
  have 6: "relative ''/w'' ''/w/src'' ''/w/src/y/z.md'' = ''y/z.md''" by code_simp
  have 7: "join [''out'', ''y/z.md''] = ''out/y/z.md''" by code_simp
  from structured_destination [OF 1 2, of "''/w''" "''out''"] 3 4
  have "preprocessDestinationPath ''/w'' ?e ''out'' ?o =
           join [''out'', relative ''/w'' (normalizedPath (pattern ?e)) (path ?e)] \<and>
        relative ''/w'' ''out'' (preprocessDestinationPath ''/w'' ?e ''out'' ?o) =
            relative ''/w'' (normalizedPath (pattern ?e)) (path ?e)"
    by blast
  then have "preprocessDestinationPath ''/w'' ?e ''out'' ?o = ''out/y/z.md'' \<and>
        relative ''/w'' ''out'' (preprocessDestinationPath ''/w'' ?e ''out'' ?o) = ''y/z.md''"
    unfolding 5 7 .
  then show ?thesis using 1 2 3 4 6 by blast
qed

text \<open>
  Claim C5. For an entry of a wildcarded pattern in flat mode the destination path is
  \<open>join(destinationRoot, entry.name)\<close>, the root being the destination as given when
  absolute and \<open>join(cwd, destination)\<close> otherwise. Hence, whenever the entry's name is a
  file name proper, the directory of the destination path is the destination root (both
  resolve to the same absolute path), whatever the directories of the source.
\<close>

theorem flat_destination:
  assumes "hasMagic (pattern e)" and "flat opts"
  shows "preprocessDestinationPath pcwd e d opts = join [destinationRoot opts d, name e] \<and>
         (isAbsolute pcwd \<and> isName (name e) \<longrightarrow>
            resolve pcwd (dirname (preprocessDestinationPath pcwd e d opts)) =
            resolve pcwd (destinationRoot opts d))"
proof -
  have eq: "preprocessDestinationPath pcwd e d opts = join [destinationRoot opts d, name e]"
    using assms join_assoc [of "cwd opts" d "name e"] basename_not_absolute [of "path e"]
    by (simp add: preprocessDestinationPath_def destinationRoot_def name_def)
  have "resolve pcwd (dirname (join [destinationRoot opts d, name e])) = resolve pcwd (destinationRoot opts d)"
    if "isAbsolute pcwd" and "isName (name e)"
    using resolve_dirname_join [OF that(1) destinationRoot_nonempty that(2)] .
  then show ?thesis using eq by simp
qed

theorem flat_destination_witness:
  "hasMagic (pattern (fixtureEntry ''src/**/*.md'' ''/w/src/y/z.md'')) \<and>
   flat (mergeOptions fixtureWorld flatOptions) \<and>
   isAbsolute ''/w'' \<and>
   isName (name (fixtureEntry ''src/**/*.md'' ''/w/src/y/z.md'')) \<and>
   destinationRoot (mergeOptions fixtureWorld flatOptions) ''out'' = ''/w/out'' \<and>
   preprocessDestinationPath ''/w'' (fixtureEntry ''src/**/*.md'' ''/w/src/y/z.md'') ''out''
     (mergeOptions fixtureWorld flatOptions) = ''/w/out/z.md'' \<and>
   resolve ''/w'' (dirname (preprocessDestinationPath ''/w''
     (fixtureEntry ''src/**/*.md'' ''/w/src/y/z.md'') ''out'' (mergeOptions fixtureWorld flatOptions))) =
     ''/w/out''"
proof -
  let ?e = "fixtureEntry ''src/**/*.md'' ''/w/src/y/z.md''"
  let ?o = "mergeOptions fixtureWorld flatOptions"
  have 1: "hasMagic (pattern ?e)" by code_simp
  have 2: "flat ?o" by code_simp
  have 3: "isAbsolute ''/w''" by code_simp
  have 4: "isName (name ?e)" by code_simp
  have 5: "destinationRoot ?o ''out'' = ''/w/out''" by code_simp
  have 6: "join [''/w/out'', name ?e] = ''/w/out/z.md''" by code_simp
  have 7: "resolve ''/w'' ''/w/out'' = ''/w/out''" by code_simp
  from flat_destination [OF 1 2, of "''/w''" "''out''"] 3 4
  have "preprocessDestinationPath ''/w'' ?e ''out'' ?o = join [destinationRoot ?o ''out'', name ?e] \<and>
        resolve ''/w'' (dirname (preprocessDestinationPath ''/w'' ?e ''out'' ?o)) =
        resolve ''/w'' (destinationRoot ?o ''out'')"
    by blast
  then have "preprocessDestinationPath ''/w'' ?e ''out'' ?o = ''/w/out/z.md'' \<and>
        resolve ''/w'' (dirname (preprocessDestinationPath ''/w'' ?e ''out'' ?o)) = ''/w/out''"
    unfolding 5 6 7 .
  then show ?thesis using 1 2 3 4 5 by blast
qed

text \<open>
  Claim C6, as amended. For an entry of a pattern that is not wildcarded the destination
  path is \<open>join(destination, entry.name)\<close> when the destination is absolute and
  \<open>join(cwd, destination, relative(cwd, entry.path))\<close> otherwise; it is an absolute path
  whenever \<open>cwd\<close> is absolute.
\<close>

theorem literal_destination:
  assumes "\<not> hasMagic (pattern e)"
  shows "preprocessDestinationPath pcwd e d opts =
           (if isAbsolute d then join [d, name e]
            else join [cwd opts, d, relative pcwd (cwd opts) (path e)]) \<and>
         (isAbsolute (cwd opts) \<longrightarrow> isAbsolute (preprocessDestinationPath pcwd e d opts))"
  using assms isAbsolute_join [of d "[name e]"]
    isAbsolute_join [of "cwd opts" "[d, relative pcwd (cwd opts) (path e)]"]
  by (simp add: preprocessDestinationPath_def)

theorem literal_destination_witness:
  "\<not> hasMagic (pattern (fixtureEntry ''sub/b.txt'' ''/w/sub/b.txt'')) \<and>
   \<not> isAbsolute ''out'' \<and>
   isAbsolute (cwd (mergeOptions fixtureWorld noOptions)) \<and>
   relative ''/w'' (cwd (mergeOptions fixtureWorld noOptions))
     (path (fixtureEntry ''sub/b.txt'' ''/w/sub/b.txt'')) = ''sub/b.txt'' \<and>
   preprocessDestinationPath ''/w'' (fixtureEntry ''sub/b.txt'' ''/w/sub/b.txt'') ''out''
     (mergeOptions fixtureWorld noOptions) = ''/w/out/sub/b.txt'' \<and>
   isAbsolute (preprocessDestinationPath ''/w'' (fixtureEntry ''sub/b.txt'' ''/w/sub/b.txt'') ''out''
     (mergeOptions fixtureWorld noOptions)) \<and>
   preprocessDestinationPath ''/w'' (fixtureEntry ''sub/b.txt'' ''/w/sub/b.txt'') ''/abs''
     (mergeOptions fixtureWorld noOptions) = ''/abs/b.txt''"
proof -
  let ?e = "fixtureEntry ''sub/b.txt'' ''/w/sub/b.txt''"
  let ?o = "mergeOptions fixtureWorld noOptions"
  have 1: "\<not> hasMagic (pattern ?e)" by code_simp
  have 2: "\<not> isAbsolute ''out''" by code_simp
  have 3: "isAbsolute (cwd ?o)" by code_simp
  have 4: "relative ''/w'' (cwd ?o) (path ?e) = ''sub/b.txt''" by code_simp
  have 5: "join [cwd ?o, ''out'', ''sub/b.txt''] = ''/w/out/sub/b.txt''" by code_simp
  have 6: "isAbsolute ''/abs''" by code_simp
  have 7: "join [''/abs'', name ?e] = ''/abs/b.txt''" by code_simp
  from literal_destination [OF 1, of "''/w''" "''out''" ?o, unfolded if_not_P [OF 2]] 3
  have a: "preprocessDestinationPath ''/w'' ?e ''out'' ?o =
             join [cwd ?o, ''out'', relative ''/w'' (cwd ?o) (path ?e)] \<and>
           isAbsolute (preprocessDestinationPath ''/w'' ?e ''out'' ?o)"
    by blast
  from literal_destination [OF 1, of "''/w''" "''/abs''" ?o, unfolded if_P [OF 6]]
  have b: "preprocessDestinationPath ''/w'' ?e ''/abs'' ?o = join [''/abs'', name ?e]"
    by blast
  have a': "preprocessDestinationPath ''/w'' ?e ''out'' ?o = ''/w/out/sub/b.txt''"
    using a unfolding 4 5 by blast
  have b': "preprocessDestinationPath ''/w'' ?e ''/abs'' ?o = ''/abs/b.txt''"
    using b unfolding 7 .
  show ?thesis using a a' b' 1 2 3 4 by blast
qed

text \<open>
  Claim C6 as stated fails in its example. With the working directory \<open>/w\<close>, the sources
  \<open>a.txt\<close> and \<open>sub/b.txt\<close> and the destination \<open>out\<close>, the operation resolves with
  \<open>/w/out/a.txt\<close> and \<open>/w/out/sub/b.txt\<close>: a destination that is not absolute is
  joined onto \<open>cwd\<close>, so the results are not \<open>out/a.txt\<close> and \<open>out/sub/b.txt\<close>.
\<close>

theorem literal_example_counterexample:
  "settlement (cpy fixtureWorld (Many [''a.txt'', ''sub/b.txt'']) ''out'' noOptions
     [0, 0, 0, 0, 1, 1, 1, 1]) = Some (Inr [''/w/out/a.txt'', ''/w/out/sub/b.txt'']) \<and>
   settlement (cpy fixtureWorld (Many [''a.txt'', ''sub/b.txt'']) ''out'' noOptions
     [0, 0, 0, 0, 1, 1, 1, 1]) \<noteq> Some (Inr [''out/a.txt'', ''out/sub/b.txt''])"
  by code_simp

section \<open>Properties of the copy operation\<close>

lemma resolvePatterns_append:
  "resolvePatterns w opts (pre @ rest) acc =
     (case resolvePatterns w opts pre acc of Inl e \<Rightarrow> Inl e | Inr acc' \<Rightarrow> resolvePatterns w opts rest acc')"
  by (induction pre arbitrary: acc) (auto split: sum.splits)

lemma resolvePatterns_notfound:
  "resolvePatterns w opts ps acc = Inl (SourceNotFound x) \<Longrightarrow> \<not> globHasMagic w x"
  by (induction ps arbitrary: acc) (auto split: sum.splits if_splits)

lemma resolvePatterns_empty_magic:
  "\<forall>p \<in> set ps. getMatches p = Inr [] \<and> globHasMagic w (originalPath p) \<Longrightarrow>
     resolvePatterns w opts ps acc = Inr acc"
  by (induction ps arbitrary: acc) auto

lemma startNext_rejection: "rejection (startNext w d opts es s) = rejection s"
  by (simp add: startNext_def Let_def)

lemma startFirst_rejection: "rejection (startFirst w d opts es c s) = rejection s"
  by (induction c arbitrary: s) (simp_all add: startNext_rejection)

lemma copyStep_copyError: "copyError (rejection s) \<Longrightarrow> copyError (rejection (copyStep w d opts es i s))"
  by (auto simp: copyStep_def Let_def copyError_def startNext_rejection split: list.splits prod.splits option.splits cpy_error.splits)

lemma runSchedule_copyError:
  "copyError (rejection s) \<Longrightarrow> copyError (rejection (runSchedule w d opts es sched s))"
  by (induction sched arbitrary: s) (simp_all add: copyStep_copyError)

lemma run_not_SourceNotFound:
  "settlementOf (runSchedule w d opts es sched (startFirst w d opts es c (initialRun es))) \<noteq> Some (Inl (SourceNotFound x))"
proof -
  let ?s = "runSchedule w d opts es sched (startFirst w d opts es c (initialRun es))"
  have "copyError (rejection (startFirst w d opts es c (initialRun es)))"
    by (simp add: startFirst_rejection initialRun_def copyError_def)
  then have "copyError (rejection ?s)" by (rule runSchedule_copyError)
  then show ?thesis by (auto simp: settlementOf_def copyError_def split: option.splits cpy_error.splits)
qed

lemma cpy_failed:
  "resolveEntries w source d (mergeOptions w g) = Inl err \<Longrightarrow>
     cpy w source d g sched = \<lparr>events = [], settlement = Some (Inl err), copies = [], states = []\<rparr>"
  by (simp add: cpy_def Let_def)

lemma cpy_settlement_SourceNotFound:
  "settlement (cpy w source d g sched) = Some (Inl (SourceNotFound x)) \<Longrightarrow>
     resolveEntries w source d (mergeOptions w g) = Inl (SourceNotFound x)"
  using run_not_SourceNotFound [of w d "mergeOptions w g" _ sched "concurrencyOf w g" x]
  by (auto simp: cpy_def Let_def split: sum.splits if_splits)

text \<open>
  Claim C4. Let the pattern \<open>p\<close> match nothing, the patterns before it resolving without
  error. The operation fails with the error \<open>Cannot copy `p`: the file doesn't exist\<close>
  if and only if \<open>p\<close> is not wildcarded (\<open>glob.hasMagic\<close> of its original text is
  false); when it fails so, nothing has been emitted and no copy has been started.
\<close>

theorem missing_literal_source_fails:
  assumes inst: "patternInstances w source d (mergeOptions w g) = pre @ p # post"
    and pre: "resolvePatterns w (mergeOptions w g) pre [] = Inr acc"
    and none: "getMatches p = Inr []"
    and dest: "d \<noteq> []"
  shows "(settlement (cpy w source d g sched) = Some (Inl (SourceNotFound (originalPath p)))
          \<longleftrightarrow> \<not> globHasMagic w (originalPath p)) \<and>
         (\<not> globHasMagic w (originalPath p) \<longrightarrow>
            events (cpy w source d g sched) = [] \<and> copies (cpy w source d g sched) = [])"
proof -
  let ?o = "mergeOptions w g"
  have src: "arrify source \<noteq> []" using inst by (auto simp: patternInstances_def)
  have rp: "resolvePatterns w ?o (pre @ p # post) [] =
      (if globHasMagic w (originalPath p) then resolvePatterns w ?o post acc
       else Inl (SourceNotFound (originalPath p)))"
    using pre none by (simp add: resolvePatterns_append)
  have fails: "cpy w source d g sched =
      \<lparr>events = [], settlement = Some (Inl (SourceNotFound (originalPath p))), copies = [], states = []\<rparr>"
    if "\<not> globHasMagic w (originalPath p)"
  proof -
    have "resolveEntries w source d ?o = Inl (SourceNotFound (originalPath p))"
      using that rp src dest inst by (simp add: resolveEntries_def)
    then show ?thesis by (rule cpy_failed)
  qed
  have "\<not> globHasMagic w (originalPath p)"
    if "settlement (cpy w source d g sched) = Some (Inl (SourceNotFound (originalPath p)))"
  proof -
    from cpy_settlement_SourceNotFound [OF that]
    have "resolvePatterns w ?o (pre @ p # post) [] = Inl (SourceNotFound (originalPath p))"
      using src dest inst by (auto simp: resolveEntries_def split: sum.splits option.splits)
    then show ?thesis by (rule resolvePatterns_notfound)
  qed
  then show ?thesis using fails by auto
qed

theorem missing_literal_source_fails_witness:
  "patternInstances fixtureWorld (Many [''a.txt'', ''nothing.md'', ''sub/b.txt'']) ''out''
       (mergeOptions fixtureWorld noOptions) =
     [newGlobPattern fixtureWorld ''a.txt'' ''out'' (mergeOptions fixtureWorld noOptions)]
     @ newGlobPattern fixtureWorld ''nothing.md'' ''out'' (mergeOptions fixtureWorld noOptions)
     # [newGlobPattern fixtureWorld ''sub/b.txt'' ''out'' (mergeOptions fixtureWorld noOptions)] \<and>
   getMatches (newGlobPattern fixtureWorld ''nothing.md'' ''out'' (mergeOptions fixtureWorld noOptions)) = Inr [] \<and>
   \<not> globHasMagic fixtureWorld ''nothing.md'' \<and>
   cpy fixtureWorld (Many [''a.txt'', ''nothing.md'', ''sub/b.txt'']) ''out'' noOptions [0, 1, 0, 1] =
     \<lparr>events = [], settlement = Some (Inl (SourceNotFound ''nothing.md'')), copies = [], states = []\<rparr>"
proof -
  let ?o = "mergeOptions fixtureWorld noOptions"
  let ?src = "Many [''a.txt'', ''nothing.md'', ''sub/b.txt'']"
  let ?p = "newGlobPattern fixtureWorld ''nothing.md'' ''out'' ?o"
  have 1: "patternInstances fixtureWorld ?src ''out'' ?o =
     [newGlobPattern fixtureWorld ''a.txt'' ''out'' ?o] @ ?p # [newGlobPattern fixtureWorld ''sub/b.txt'' ''out'' ?o]"
    by code_simp
  have 2: "resolvePatterns fixtureWorld ?o [newGlobPattern fixtureWorld ''a.txt'' ''out'' ?o] [] =
      Inr [fixtureEntry ''a.txt'' ''/w/a.txt'']" by code_simp
  have 3: "getMatches ?p = Inr []" by code_simp
  have 4: "''out'' \<noteq> []" by simp
  have 5: "originalPath ?p = ''nothing.md''" by code_simp
  have 6: "\<not> globHasMagic fixtureWorld ''nothing.md''" by code_simp
  have 7: "states (cpy fixtureWorld ?src ''out'' noOptions [0, 1, 0, 1]) = []" by code_simp
  from missing_literal_source_fails [OF 1 2 3 4, of "[0, 1, 0, 1]"] 5 6
  have "settlement (cpy fixtureWorld ?src ''out'' noOptions [0, 1, 0, 1]) =
          Some (Inl (SourceNotFound ''nothing.md'')) \<and>
        events (cpy fixtureWorld ?src ''out'' noOptions [0, 1, 0, 1]) = [] \<and>
        copies (cpy fixtureWorld ?src ''out'' noOptions [0, 1, 0, 1]) = []"
    by simp
  then have "cpy fixtureWorld ?src ''out'' noOptions [0, 1, 0, 1] =
     \<lparr>events = [], settlement = Some (Inl (SourceNotFound ''nothing.md'')), copies = [], states = []\<rparr>"
    using 7 by (cases "cpy fixtureWorld ?src ''out'' noOptions [0, 1, 0, 1]") simp
  then show ?thesis using 1 3 6 by simp
qed

lemma startNext_Nil: "startNext w d opts [] s = s"
  by (simp add: startNext_def Let_def)

lemma startFirst_Nil: "startFirst w d opts [] c s = s"
  by (induction c arbitrary: s) (simp_all add: startNext_Nil)

lemma runSchedule_Nil: "runSchedule w d opts [] sched s = s"
  by (induction sched arbitrary: s) (simp_all add: copyStep_def)

lemma cpy_no_entries:
  assumes "resolveEntries w source d (mergeOptions w g) = Inr []" and "1 \<le> concurrencyOf w g"
  shows "cpy w source d g sched =
           \<lparr>events = [emptySnapshot], settlement = Some (Inr []), copies = [], states = []\<rparr>"
  using assms
  by (simp add: cpy_def Let_def startFirst_Nil runSchedule_Nil initialRun_def settlementOf_def)

text \<open>
  Claim C8. When every pattern of the operation is wildcarded and matches nothing, the
  operation resolves with the empty list, starts no copy and emits exactly one
  snapshot, \<open>{totalFiles: 0, percent: 1, completedFiles: 0, completedSize: 0}\<close>, under
  every schedule. (The concurrency is at least 1, as p-map requires.)
\<close>

theorem empty_wildcard_match_succeeds:
  assumes "arrify source \<noteq> []" and "d \<noteq> []" and "1 \<le> concurrencyOf w g"
    and "\<forall>p \<in> set (patternInstances w source d (mergeOptions w g)).
           getMatches p = Inr [] \<and> globHasMagic w (originalPath p)"
  shows "cpy w source d g sched =
           \<lparr>events = [\<lparr>completedFiles = 0, completedSize = 0, totalFiles = 0, percentDone = Num 1\<rparr>],
            settlement = Some (Inr []), copies = [], states = []\<rparr>"
proof -
  have "resolvePatterns w (mergeOptions w g) (patternInstances w source d (mergeOptions w g)) [] = Inr []"
    by (rule resolvePatterns_empty_magic [OF assms(4)])
  then have "resolveEntries w source d (mergeOptions w g) = Inr []"
    using assms(1,2) by (simp add: resolveEntries_def split: option.splits)
  from cpy_no_entries [OF this assms(3)] show ?thesis by (simp add: emptySnapshot_def)
qed

theorem empty_wildcard_match_succeeds_witness:
  "arrify (One ''nothing/*.md'') \<noteq> [] \<and> ''out'' \<noteq> [] \<and> 1 \<le> concurrencyOf fixtureWorld noOptions \<and>
   map (\<lambda>p. (getMatches p, globHasMagic fixtureWorld (originalPath p)))
     (patternInstances fixtureWorld (One ''nothing/*.md'') ''out'' (mergeOptions fixtureWorld noOptions)) =
     [(Inr [], True)] \<and>
   cpy fixtureWorld (One ''nothing/*.md'') ''out'' noOptions [0, 1] =
     \<lparr>events = [\<lparr>completedFiles = 0, completedSize = 0, totalFiles = 0, percentDone = Num 1\<rparr>],
      settlement = Some (Inr []), copies = [], states = []\<rparr>"
proof -
  let ?o = "mergeOptions fixtureWorld noOptions"
  have 1: "arrify (One ''nothing/*.md'') \<noteq> []" by simp
  have 2: "''out'' \<noteq> []" by simp
  have 3: "1 \<le> concurrencyOf fixtureWorld noOptions" by code_simp
  have 4: "map (\<lambda>p. (getMatches p, globHasMagic fixtureWorld (originalPath p)))
     (patternInstances fixtureWorld (One ''nothing/*.md'') ''out'' ?o) = [(Inr [], True)]" by code_simp
  have 5: "\<forall>p \<in> set (patternInstances fixtureWorld (One ''nothing/*.md'') ''out'' ?o).
     getMatches p = Inr [] \<and> globHasMagic fixtureWorld (originalPath p)"
    using 4 by auto
  from empty_wildcard_match_succeeds [OF 1 2 3 5, of "[0, 1]"] show ?thesis using 1 3 4 by simp
qed

lemma runInv_initial: "runInv w d opts es (initialRun es)"
  by (simp add: runInv_def initialRun_def)

lemma runInv_startNext: "runInv w d opts es s \<Longrightarrow> runInv w d opts es (startNext w d opts es s)"
  by (auto simp: runInv_def startNext_def Let_def nth_list_update)

lemma runInv_startFirst: "runInv w d opts es s \<Longrightarrow> runInv w d opts es (startFirst w d opts es c s)"
  by (induction c arbitrary: s) (simp_all add: runInv_startNext)

lemma runInv_succeed:
  assumes inv: "runInv w d opts es s" and i: "i < length es" and fl: "copyStates s ! i = InFlight"
  shows "runInv w d opts es (s\<lparr>copyStates := (copyStates s)[i := Succeeded],
                               ret := (ret s)[i := Some (finalDestination w d opts (es ! i))]\<rparr>)"
proof -
  have len: "length (copyStates s) = length es" "length (ret s) = length es"
    using inv by (simp_all add: runInv_def)
  have old: "\<forall>j < length es. copyStates s ! j = Succeeded \<longrightarrow>
      ret s ! j = Some (finalDestination w d opts (es ! j))"
    using inv by (simp add: runInv_def)
  have ok: "\<forall>j < length es. (copyStates s)[i := Succeeded] ! j = Succeeded \<longrightarrow>
      (ret s)[i := Some (finalDestination w d opts (es ! i))] ! j = Some (finalDestination w d opts (es ! j))"
  proof (intro allI impI)
    fix j assume j: "j < length es" and "(copyStates s)[i := Succeeded] ! j = Succeeded"
    then show "(ret s)[i := Some (finalDestination w d opts (es ! i))] ! j = Some (finalDestination w d opts (es ! j))"
      using old len i by (cases "j = i") simp_all
  qed
  have rej: "\<exists>j < length es. (copyStates s)[i := Succeeded] ! j = Failed" if "rejection s \<noteq> None"
  proof -
    from inv that obtain j where j: "j < length es" "copyStates s ! j = Failed" by (auto simp: runInv_def)
    then have "j \<noteq> i" using fl by auto
    then have "(copyStates s)[i := Succeeded] ! j = Failed" using j by simp
    then show ?thesis using j(1) by blast
  qed
  show ?thesis unfolding runInv_def using len ok rej by simp
qed

lemma runInv_fail:
  assumes inv: "runInv w d opts es s" and i: "i < length es" and fl: "copyStates s ! i = InFlight"
  shows "runInv w d opts es (s\<lparr>copyStates := (copyStates s)[i := Failed], rejection := r\<rparr>)"
proof -
  have len: "length (copyStates s) = length es" "length (ret s) = length es"
    using inv by (simp_all add: runInv_def)
  have old: "\<forall>j < length es. copyStates s ! j = Succeeded \<longrightarrow>
      ret s ! j = Some (finalDestination w d opts (es ! j))"
    using inv by (simp add: runInv_def)
  have ok: "\<forall>j < length es. (copyStates s)[i := Failed] ! j = Succeeded \<longrightarrow>
      ret s ! j = Some (finalDestination w d opts (es ! j))"
  proof (intro allI impI)
    fix j assume j: "j < length es" and "(copyStates s)[i := Failed] ! j = Succeeded"
    then show "ret s ! j = Some (finalDestination w d opts (es ! j))"
      using old len i by (cases "j = i") simp_all
  qed
  have "(copyStates s)[i := Failed] ! i = Failed" using i len by simp
  then have rej: "\<exists>j < length es. (copyStates s)[i := Failed] ! j = Failed" using i by blast
  show ?thesis unfolding runInv_def using len ok rej by simp
qed

lemma runInv_event:
  "runInv w d opts es s \<Longrightarrow> runInv w d opts es (s\<lparr>remaining := r, closure := c, emitted := e\<rparr>)"
  by (simp add: runInv_def)

lemma runInv_copyStep:
  assumes inv: "runInv w d opts es s"
  shows "runInv w d opts es (copyStep w d opts es i s)"
proof (cases "i < length es \<and> copyStates s ! i = InFlight")
  case False
  then show ?thesis using inv by (auto simp: copyStep_def)
next
  case True
  then have i: "i < length es" and fl: "copyStates s ! i = InFlight" by simp_all
  show ?thesis
  proof (cases "remaining s ! i")
    case (Cons event rest)
    then show ?thesis using True runInv_event [OF inv]
      by (simp add: copyStep_def Let_def split: prod.splits)
  next
    case Nil
    show ?thesis
    proof (cases "failure (cpFile w (path (es ! i)) (finalDestination w d opts (es ! i)))")
      case None
      then show ?thesis using True Nil runInv_startNext [OF runInv_succeed [OF inv i fl]]
        by (simp add: copyStep_def Let_def)
    next
      case (Some message)
      then show ?thesis using True Nil runInv_fail [OF inv i fl]
        by (simp add: copyStep_def Let_def)
    qed
  qed
qed

lemma runInv_runSchedule:
  "runInv w d opts es s \<Longrightarrow> runInv w d opts es (runSchedule w d opts es sched s)"
  by (induction sched arbitrary: s) (simp_all add: runInv_copyStep)

lemma runInv_settlement:
  assumes inv: "runInv w d opts es s" and all: "list_all (\<lambda>st. st = Succeeded) (copyStates s)"
  shows "settlementOf s = Some (Inr (map (finalDestination w d opts) es))"
proof -
  have len: "length (copyStates s) = length es" "length (ret s) = length es"
    using inv by (simp_all add: runInv_def)
  have suc: "\<forall>i < length es. copyStates s ! i = Succeeded" using all len by (simp add: list_all_length)
  have "rejection s = None"
  proof (rule ccontr)
    assume "rejection s \<noteq> None"
    then obtain j where "j < length es" "copyStates s ! j = Failed" using inv by (auto simp: runInv_def)
    then show False using suc by simp
  qed
  moreover have "map the (ret s) = map (finalDestination w d opts) es"
  proof (rule nth_equalityI)
    show "length (map the (ret s)) = length (map (finalDestination w d opts) es)" using len by simp
  next
    fix i assume "i < length (map the (ret s))"
    then have i: "i < length es" using len by simp
    then have "ret s ! i = Some (finalDestination w d opts (es ! i))" using inv suc by (simp add: runInv_def)
    then show "map the (ret s) ! i = map (finalDestination w d opts) es ! i" using i len by simp
  qed
  ultimately show ?thesis using all by (simp add: settlementOf_def)
qed

lemma resolvePatterns_order:
  "resolvePatterns w opts ps acc = Inr es \<Longrightarrow> es = acc @ concat (map (entriesOf w opts) ps)"
proof (induction ps arbitrary: acc)
  case Nil
  then show ?case by simp
next
  case (Cons p ps)
  from Cons.prems obtain ms where ms: "getMatches p = Inr ms"
    by (cases "getMatches p") simp_all
  from Cons.prems ms have "resolvePatterns w opts ps (acc @ entriesOf w opts p) = Inr es"
    by (simp add: entriesOf_def split: if_splits)
  from Cons.IH [OF this] show ?case by simp
qed

lemma resolveEntries_order:
  assumes "resolveEntries w source d opts = Inr entries"
  shows "entries =
           (case filterBy opts of None \<Rightarrow> (\<lambda>es. es) | Some f \<Rightarrow> filter f)
             (concat (map (entriesOf w opts) (patternInstances w source d opts)))"
proof -
  from assms obtain es where es: "resolvePatterns w opts (patternInstances w source d opts) [] = Inr es"
    and en: "entries = (case filterBy opts of None \<Rightarrow> es | Some f \<Rightarrow> filter f es)"
    by (auto simp: resolveEntries_def split: if_splits sum.splits option.splits)
  from resolvePatterns_order [OF es] en show ?thesis by (simp split: option.splits)
qed

text \<open>
  Claim C9. When every entry's copy has succeeded, the operation is resolved with the
  destination paths of the entries in the order of the entries, that is the order of
  the patterns and of the matches within each pattern (filtered, when a filter is
  given). The schedule, and with it the order in which the copies finish, is arbitrary.
\<close>

theorem results_in_entry_order:
  assumes "resolveEntries w source d (mergeOptions w g) = Inr entries"
    and "1 \<le> concurrencyOf w g"
    and "list_all (\<lambda>st. st = Succeeded) (states (cpy w source d g sched))"
  shows "settlement (cpy w source d g sched) =
           Some (Inr (map (finalDestination w d (mergeOptions w g)) entries)) \<and>
         entries =
           (case filterBy (mergeOptions w g) of None \<Rightarrow> (\<lambda>es. es) | Some f \<Rightarrow> filter f)
             (concat (map (entriesOf w (mergeOptions w g))
                (patternInstances w source d (mergeOptions w g))))"
proof -
  let ?o = "mergeOptions w g"
  let ?s = "runSchedule w d ?o entries sched (startFirst w d ?o entries (concurrencyOf w g) (initialRun entries))"
  have inv: "runInv w d ?o entries ?s"
    by (intro runInv_runSchedule runInv_startFirst runInv_initial)
  have st: "states (cpy w source d g sched) = copyStates ?s"
    and se: "settlement (cpy w source d g sched) = settlementOf ?s"
    using assms(1,2) by (simp_all add: cpy_def Let_def)
  have "settlement (cpy w source d g sched) = Some (Inr (map (finalDestination w d ?o) entries))"
    unfolding se using runInv_settlement [OF inv] assms(3) st by simp
  then show ?thesis using resolveEntries_order [OF assms(1)] by blast
qed

theorem results_in_entry_order_witness:
  "resolveEntries fixtureWorld (Many [''a.txt'', ''src/**/*.md'']) ''out'' (mergeOptions fixtureWorld noOptions) =
     Inr [fixtureEntry ''a.txt'' ''/w/a.txt'', fixtureEntry ''src/**/*.md'' ''/w/src/x.md'',
          fixtureEntry ''src/**/*.md'' ''/w/src/y/z.md''] \<and>
   1 \<le> concurrencyOf fixtureWorld noOptions \<and>
   states (cpy fixtureWorld (Many [''a.txt'', ''src/**/*.md'']) ''out'' noOptions
     [1, 1, 1, 1, 2, 0, 2, 0, 2, 2, 0, 0]) = [Succeeded, Succeeded, Succeeded] \<and>
   map completedFiles (events (cpy fixtureWorld (Many [''a.txt'', ''src/**/*.md'']) ''out'' noOptions
     [1, 1, 1, 1, 2, 0, 2, 0, 2, 2, 0, 0])) = [0, 1, 1, 1, 2, 3] \<and>
   settlement (cpy fixtureWorld (Many [''a.txt'', ''src/**/*.md'']) ''out'' noOptions
     [1, 1, 1, 1, 2, 0, 2, 0, 2, 2, 0, 0]) =
     Some (Inr [''/w/out/a.txt'', ''out/x.md'', ''out/y/z.md''])"
proof -
  let ?o = "mergeOptions fixtureWorld noOptions"
  let ?src = "Many [''a.txt'', ''src/**/*.md'']"
  let ?sched = "[1, 1, 1, 1, 2, 0, 2, 0, 2, 2, 0, 0] :: nat list"
  let ?es = "[fixtureEntry ''a.txt'' ''/w/a.txt'', fixtureEntry ''src/**/*.md'' ''/w/src/x.md'',
          fixtureEntry ''src/**/*.md'' ''/w/src/y/z.md'']"
  have 1: "resolveEntries fixtureWorld ?src ''out'' ?o = Inr ?es" by code_simp
  have 2: "1 \<le> concurrencyOf fixtureWorld noOptions" by code_simp
  have 3: "states (cpy fixtureWorld ?src ''out'' noOptions ?sched) = [Succeeded, Succeeded, Succeeded]"
    by code_simp
  have 4: "list_all (\<lambda>st. st = Succeeded) (states (cpy fixtureWorld ?src ''out'' noOptions ?sched))"
    unfolding 3 by simp
  have 5: "map (finalDestination fixtureWorld ''out'' ?o) ?es = [''/w/out/a.txt'', ''out/x.md'', ''out/y/z.md'']"
    by code_simp
  have 6: "map completedFiles (events (cpy fixtureWorld ?src ''out'' noOptions ?sched)) = [0, 1, 1, 1, 2, 3]"
    by code_simp
  from results_in_entry_order [OF 1 2 4, THEN conjunct1] 5
  have "settlement (cpy fixtureWorld ?src ''out'' noOptions ?sched) =
     Some (Inr [''/w/out/a.txt'', ''out/x.md'', ''out/y/z.md''])" by simp
  then show ?thesis using 1 2 3 6 by simp
qed

text \<open>
  Such a run exists for every operation none of whose copies fails: under the
  sequential schedule every copy succeeds.
\<close>

lemma runSchedule_append:
  "runSchedule w d opts es (a @ b) s = runSchedule w d opts es b (runSchedule w d opts es a s)"
  by (induction a arbitrary: s) simp_all

lemma copyStep_event:
  assumes "k < length es" and "copyStates s ! k = InFlight" and "remaining s ! k = ev # rest"
  shows "copyStates (copyStep w d opts es k s) = copyStates s \<and>
         started (copyStep w d opts es k s) = started s \<and>
         rejection (copyStep w d opts es k s) = rejection s \<and>
         remaining (copyStep w d opts es k s) = (remaining s)[k := rest]"
  using assms by (simp add: copyStep_def Let_def split: prod.splits)

lemma deliver_all:
  assumes "k < length es" and "length (remaining s) = length es"
    and "copyStates s ! k = InFlight" and "remaining s ! k = evs"
  shows "copyStates (runSchedule w d opts es (replicate (length evs) k) s) = copyStates s \<and>
         started (runSchedule w d opts es (replicate (length evs) k) s) = started s \<and>
         rejection (runSchedule w d opts es (replicate (length evs) k) s) = rejection s \<and>
         remaining (runSchedule w d opts es (replicate (length evs) k) s) = (remaining s)[k := []]"
  using assms
proof (induction evs arbitrary: s)
  case Nil
  then have "(remaining s)[k := []] = remaining s" by (metis list_update_id)
  then show ?case by simp
next
  case (Cons ev rest)
  let ?s' = "copyStep w d opts es k s"
  have st: "copyStates ?s' = copyStates s" "started ?s' = started s" "rejection ?s' = rejection s"
    "remaining ?s' = (remaining s)[k := rest]"
    using copyStep_event [OF Cons.prems(1,3,4), of w d opts] by simp_all
  have a: "length (remaining ?s') = length es" using st Cons.prems(2) by simp
  have b: "copyStates ?s' ! k = InFlight" using st Cons.prems(3) by simp
  have c: "remaining ?s' ! k = rest" using st Cons.prems(1,2) by simp
  from Cons.IH [OF Cons.prems(1) a b c] st show ?case by simp
qed

lemma seqInv_block:
  assumes inv: "seqInv w d opts es k s" and k: "k < length es"
    and ok: "failure (cpFile w (path (es ! k)) (finalDestination w d opts (es ! k))) = None"
  shows "seqInv w d opts es (Suc k)
           (runSchedule w d opts es (replicate (Suc (length (copyTicks w d opts (es ! k)))) k) s)"
proof -
  let ?T = "copyTicks w d opts (es ! k)"
  let ?s1 = "runSchedule w d opts es (replicate (length ?T) k) s"
  have len: "length (copyStates s) = length es" "length (remaining s) = length es"
    and rej: "rejection s = None" and st: "started s \<le> length es" and ks: "k < started s"
    and succ: "\<forall>i < k. copyStates s ! i = Succeeded"
    and fl: "\<forall>i. k \<le> i \<and> i < started s \<longrightarrow>
          copyStates s ! i = InFlight \<and> remaining s ! i = copyTicks w d opts (es ! i)"
    using inv k by (simp_all add: seqInv_def)
  have kf: "copyStates s ! k = InFlight" "remaining s ! k = ?T" using fl ks by simp_all
  have s1: "copyStates ?s1 = copyStates s" "started ?s1 = started s" "rejection ?s1 = rejection s"
    "remaining ?s1 = (remaining s)[k := []]"
    using deliver_all [OF k len(2) kf, of w d opts] by simp_all
  let ?s2 = "?s1\<lparr>copyStates := (copyStates ?s1)[k := Succeeded],
                   ret := (ret ?s1)[k := Some (finalDestination w d opts (es ! k))]\<rparr>"
  have step: "copyStep w d opts es k ?s1 = startNext w d opts es ?s2"
    using k kf s1 len ok by (simp add: copyStep_def Let_def)
  have rs: "replicate (Suc (length ?T)) k = replicate (length ?T) k @ [k]"
    by (simp only: replicate_Suc replicate_append_same)
  have run: "runSchedule w d opts es (replicate (Suc (length ?T)) k) s = startNext w d opts es ?s2"
    unfolding rs runSchedule_append using step by simp
  let ?s3 = "startNext w d opts es ?s2"
  have s3len: "length (copyStates ?s3) = length es" "length (remaining ?s3) = length es"
    using s1 len by (simp_all add: startNext_def Let_def)
  have s3rej: "rejection ?s3 = None" using s1 rej by (simp add: startNext_def Let_def)
  have s3st: "started ?s3 = (if started s < length es then Suc (started s) else started s)"
    using s1 rej by (simp add: startNext_def Let_def)
  have s3done: "\<forall>i < Suc k. copyStates ?s3 ! i = Succeeded"
  proof (intro allI impI)
    fix i assume i: "i < Suc k"
    have "copyStates ?s2 ! i = Succeeded"
      using i succ k len s1 by (cases "i = k") simp_all
    moreover have "i \<noteq> started s" using i ks by simp
    ultimately show "copyStates ?s3 ! i = Succeeded"
      using s1 by (simp add: startNext_def Let_def)
  qed
  have s3fl: "\<forall>i. Suc k \<le> i \<and> i < started ?s3 \<longrightarrow>
          copyStates ?s3 ! i = InFlight \<and> remaining ?s3 ! i = copyTicks w d opts (es ! i)"
  proof (intro allI impI)
    fix i assume i: "Suc k \<le> i \<and> i < started ?s3"
    show "copyStates ?s3 ! i = InFlight \<and> remaining ?s3 ! i = copyTicks w d opts (es ! i)"
    proof (cases "i = started s")
      case True
      then have "started s < length es" using i s3st by (simp split: if_splits)
      then show ?thesis using True s1 rej len
        by (simp add: startNext_def Let_def copyTicks_def)
    next
      case False
      then have "i < started s" using i s3st by (simp split: if_splits)
      then have "copyStates s ! i = InFlight \<and> remaining s ! i = copyTicks w d opts (es ! i)"
        using fl i by simp
      moreover have "i \<noteq> k" using i by simp
      ultimately show ?thesis using False s1 by (simp add: startNext_def Let_def)
    qed
  qed
  have s3k: "Suc k < length es \<longrightarrow> Suc k < started ?s3" using s3st ks by auto
  have s3le: "started ?s3 \<le> length es" using s3st st by simp
  show ?thesis unfolding run seqInv_def
    using s3len s3rej s3le s3k s3done s3fl by blast
qed

lemma seqInv_blocks:
  assumes ok: "\<forall>e \<in> set es. failure (cpFile w (path e) (finalDestination w d opts e)) = None"
  shows "k + m = length es \<Longrightarrow> seqInv w d opts es k s \<Longrightarrow>
     seqInv w d opts es (length es)
       (runSchedule w d opts es
          (concat (map (\<lambda>i. replicate (Suc (length (copyTicks w d opts (es ! i)))) i) [k..<length es])) s)"
proof (induction m arbitrary: k s)
  case 0
  then show ?case by simp
next
  case (Suc m)
  then have k: "k < length es" by simp
  have f: "failure (cpFile w (path (es ! k)) (finalDestination w d opts (es ! k))) = None"
    using ok k by simp
  have up: "[k..<length es] = k # [Suc k..<length es]" using k by (simp add: upt_conv_Cons)
  from Suc.prems(1) have km: "Suc k + m = length es" by simp
  from Suc.IH [OF km seqInv_block [OF Suc.prems(2) k f]]
  show ?case unfolding up by (simp add: runSchedule_append del: replicate_Suc)
qed

lemma startedInv_startNext:
  assumes "startedInv w d opts es m s"
  shows "startedInv w d opts es (min (length es) (Suc m)) (startNext w d opts es s)"
proof (cases "m < length es")
  case False
  then show ?thesis using assms by (auto simp: startedInv_def startNext_def Let_def min_def)
next
  case True
  have inv: "started s = m" "length (copyStates s) = length es" "length (remaining s) = length es"
    "rejection s = None"
    "\<forall>i < m. copyStates s ! i = InFlight \<and> remaining s ! i = copyTicks w d opts (es ! i)"
    using assms by (simp_all add: startedInv_def)
  have "\<forall>i < Suc m. copyStates (startNext w d opts es s) ! i = InFlight \<and>
      remaining (startNext w d opts es s) ! i = copyTicks w d opts (es ! i)"
  proof (intro allI impI)
    fix i assume "i < Suc m"
    then show "copyStates (startNext w d opts es s) ! i = InFlight \<and>
      remaining (startNext w d opts es s) ! i = copyTicks w d opts (es ! i)"
      using inv True by (cases "i = m") (simp_all add: startNext_def Let_def copyTicks_def)
  qed
  then show ?thesis using inv True by (simp add: startedInv_def startNext_def Let_def min_def)
qed

lemma startedInv_startFirst:
  "startedInv w d opts es m s \<Longrightarrow>
     startedInv w d opts es (min (length es) (m + c)) (startFirst w d opts es c s)"
proof (induction c arbitrary: m s)
  case 0
  then show ?case by (simp add: startedInv_def min_def)
next
  case (Suc c)
  from Suc.IH [OF startedInv_startNext [OF Suc.prems]]
  have "startedInv w d opts es (min (length es) (min (length es) (Suc m) + c))
          (startFirst w d opts es (Suc c) s)" by simp
  moreover have "min (length es) (min (length es) (Suc m) + c) = min (length es) (m + Suc c)" by simp
  ultimately show ?case by simp
qed

lemma seqInv_start:
  assumes "1 \<le> c"
  shows "seqInv w d opts es 0 (startFirst w d opts es c (initialRun es))"
proof -
  have "startedInv w d opts es 0 (initialRun es)" by (simp add: startedInv_def initialRun_def)
  from startedInv_startFirst [OF this, of c]
  have "startedInv w d opts es (min (length es) c) (startFirst w d opts es c (initialRun es))" by simp
  then show ?thesis using assms by (auto simp: startedInv_def seqInv_def)
qed

lemma sequential_schedule_completes:
  assumes "resolveEntries w source d (mergeOptions w g) = Inr entries"
    and "1 \<le> concurrencyOf w g"
    and "\<forall>e \<in> set entries.
           failure (cpFile w (path e) (finalDestination w d (mergeOptions w g) e)) = None"
  shows "list_all (\<lambda>st. st = Succeeded)
           (states (cpy w source d g (sequentialSchedule w d (mergeOptions w g) entries)))"
proof -
  let ?o = "mergeOptions w g"
  let ?s0 = "startFirst w d ?o entries (concurrencyOf w g) (initialRun entries)"
  let ?s = "runSchedule w d ?o entries (sequentialSchedule w d ?o entries) ?s0"
  have "seqInv w d ?o entries (length entries) ?s"
    unfolding sequentialSchedule_def
    by (rule seqInv_blocks [OF assms(3) _ seqInv_start [OF assms(2)]]) simp
  then have "length (copyStates ?s) = length entries" "\<forall>i < length entries. copyStates ?s ! i = Succeeded"
    by (simp_all add: seqInv_def)
  then have "list_all (\<lambda>st. st = Succeeded) (copyStates ?s)" by (simp add: list_all_length)
  moreover have "states (cpy w source d g (sequentialSchedule w d ?o entries)) = copyStates ?s"
    using assms(1,2) by (simp add: cpy_def Let_def)
  ultimately show ?thesis by simp
qed

text \<open>
  The snapshots an operation emits are those of the progress aggregation, fed with the
  progress events of the copies in the order of their delivery.
\<close>

lemma startNext_closure:
  "closure (startNext w d opts es s) = closure s" "emitted (startNext w d opts es s) = emitted s"
  by (simp_all add: startNext_def Let_def)

lemma startFirst_closure:
  "closure (startFirst w d opts es c s) = closure s \<and> emitted (startFirst w d opts es c s) = emitted s"
  by (induction c arbitrary: s) (simp_all add: startNext_closure)

lemma copyStep_silent:
  assumes "\<not> (i < length es \<and> copyStates s ! i = InFlight) \<or> remaining s ! i = []"
  shows "closure (copyStep w d opts es i s) = closure s \<and> emitted (copyStep w d opts es i s) = emitted s"
  using assms by (auto simp: copyStep_def Let_def startNext_closure split: option.splits)

lemma copyStep_deliver:
  assumes "i < length es" and "copyStates s ! i = InFlight" and "remaining s ! i = ev # rest"
  shows "closure (copyStep w d opts es i s) = fst (fileProgressHandler (length es) ev (closure s)) \<and>
         emitted (copyStep w d opts es i s) =
           emitted s @ (case snd (fileProgressHandler (length es) ev (closure s)) of None \<Rightarrow> [] | Some p \<Rightarrow> [p])"
  using assms by (simp add: copyStep_def Let_def split: prod.splits)

lemma runSchedule_ingest:
  "closure (runSchedule w d opts es sched s) =
     fst (ingest (length es) (deliveredTicks w d opts es sched s) (closure s)) \<and>
   emitted (runSchedule w d opts es sched s) =
     emitted s @ snd (ingest (length es) (deliveredTicks w d opts es sched s) (closure s))"
proof (induction sched arbitrary: s)
  case Nil
  then show ?case by simp
next
  case (Cons i sched)
  let ?s' = "copyStep w d opts es i s"
  note ih = Cons.IH [of ?s']
  show ?case
  proof (cases "i < length es \<and> copyStates s ! i = InFlight")
    case False
    then have dl: "deliveredTicks w d opts es (i # sched) s = deliveredTicks w d opts es sched ?s'"
      by auto
    show ?thesis unfolding dl runSchedule.simps using ih copyStep_silent [of i es s w d opts] False
      by simp
  next
    case True
    show ?thesis
    proof (cases "remaining s ! i")
      case Nil
      then have dl: "deliveredTicks w d opts es (i # sched) s = deliveredTicks w d opts es sched ?s'"
        by simp
      show ?thesis unfolding dl runSchedule.simps using ih copyStep_silent [of i es s w d opts] Nil
        by simp
    next
      case (Cons ev rest)
      have c: "closure ?s' = fst (fileProgressHandler (length es) ev (closure s))"
        and e: "emitted ?s' = emitted s @
           (case snd (fileProgressHandler (length es) ev (closure s)) of None \<Rightarrow> [] | Some p \<Rightarrow> [p])"
        using copyStep_deliver [of i es s ev rest w d opts] True Cons by simp_all
      have dl: "deliveredTicks w d opts es (i # sched) s = ev # deliveredTicks w d opts es sched ?s'"
        using True Cons by simp
      show ?thesis unfolding dl runSchedule.simps using ih c e
        by (simp add: fst_ingest_Cons snd_ingest_Cons del: ingest.simps)
    qed
  qed
qed

lemma cpy_events:
  assumes "resolveEntries w source d (mergeOptions w g) = Inr entries" and "1 \<le> concurrencyOf w g"
  shows "events (cpy w source d g sched) =
           progressEvents (length entries)
             (deliveredTicks w d (mergeOptions w g) entries sched
                (startFirst w d (mergeOptions w g) entries (concurrencyOf w g) (initialRun entries)))"
proof -
  let ?o = "mergeOptions w g"
  let ?s0 = "startFirst w d ?o entries (concurrencyOf w g) (initialRun entries)"
  have c0: "closure ?s0 = initialAggregator" "emitted ?s0 = []"
    using startFirst_closure [of w d ?o entries "concurrencyOf w g" "initialRun entries"]
    by (simp_all add: initialRun_def)
  have "emitted (runSchedule w d ?o entries sched ?s0) =
      snd (ingest (length entries) (deliveredTicks w d ?o entries sched ?s0) initialAggregator)"
    using runSchedule_ingest [of w d ?o entries sched ?s0] c0 by simp
  then show ?thesis using assms by (simp add: cpy_def Let_def progressEvents_def)
qed

text \<open>
  Claim C3. For the raw ticks of the copies, duplicates and any interleaving included,
  the emitted \<open>completedFiles\<close> and \<open>completedSize\<close> values are non-decreasing and the
  final snapshot has \<open>completedFiles\<close> equal to \<open>totalFiles\<close> and percent \<open>1\<close>. The
  code breaks this when two entries have the same source path, as for the sources
  \<open>a.txt\<close>, \<open>a.txt\<close>: \<open>totalFiles\<close> counts the entries, while the status map, and with
  it \<open>completedFiles\<close> and \<open>completedSize\<close>, is keyed by the source path. Each copy
  delivers the ticks \<open>(0, 0)\<close>, \<open>(5, 1/2)\<close>, \<open>(10, 1)\<close>, in which no byte count
  drops and the percentage ends at \<open>1\<close>. When the copies run one after the other, the
  emitted \<open>completedSize\<close> is \<open>5, 10, 0, 5, 10\<close>. When they take turns, the ticks of
  the second copy are dropped as duplicates: both copies succeed, the operation
  resolves, and the last snapshot is one file of two, percent \<open>1/2\<close>.
\<close>

theorem duplicate_source_progress:
  "ticks (cpFile fixtureWorld ''/w/a.txt'' ''/w/out/a.txt'') =
     [tick ''/w/a.txt'' 0 0, tick ''/w/a.txt'' 5 (1/2), tick ''/w/a.txt'' 10 1] \<and>
   writtenNeverDrops (\<lambda>p. defaultStatus) (ticks (cpFile fixtureWorld ''/w/a.txt'' ''/w/out/a.txt'')) \<and>
   staysFinished (\<lambda>p. defaultStatus) (ticks (cpFile fixtureWorld ''/w/a.txt'' ''/w/out/a.txt'')) \<and>
   states (cpy fixtureWorld (Many [''a.txt'', ''a.txt'']) ''out'' noOptions [0, 0, 0, 0, 1, 1, 1, 1]) =
     [Succeeded, Succeeded] \<and>
   map completedSize
     (events (cpy fixtureWorld (Many [''a.txt'', ''a.txt'']) ''out'' noOptions [0, 0, 0, 0, 1, 1, 1, 1])) =
     [5, 10, 0, 5, 10] \<and>
   states (cpy fixtureWorld (Many [''a.txt'', ''a.txt'']) ''out'' noOptions [0, 1, 0, 1, 0, 1, 0, 1]) =
     [Succeeded, Succeeded] \<and>
   settlement (cpy fixtureWorld (Many [''a.txt'', ''a.txt'']) ''out'' noOptions [0, 1, 0, 1, 0, 1, 0, 1]) =
     Some (Inr [''/w/out/a.txt'', ''/w/out/a.txt'']) \<and>
   events (cpy fixtureWorld (Many [''a.txt'', ''a.txt'']) ''out'' noOptions [0, 1, 0, 1, 0, 1, 0, 1]) =
     [\<lparr>completedFiles = 0, completedSize = 5, totalFiles = 2, percentDone = Num 0\<rparr>,
      \<lparr>completedFiles = 1, completedSize = 10, totalFiles = 2, percentDone = Num (1/2)\<rparr>]"
  by code_simp


end
